theory Spec2Isabelle
  imports Main "HOL-Library.Word" "HOL-Library.Power_By_Squaring"
begin

section \<open>Collaborators of the inner-product driver\<close>

text \<open>
  The driver of \<^verbatim>\<open>sxt/proof/inner_product\<close> consumes the scalar field (namespace
  \<^verbatim>\<open>s25o\<close>), the group (\<^verbatim>\<open>c21o\<close>, \<^verbatim>\<open>rsto\<close>), the multi-exponentiation and a few
  container helpers through their headers only; none of these files is part of the
  sources at hand. Each is modelled below from what the specification says about it.
\<close>

subsection \<open>Scalars\<close>

text \<open>
  Modelled from the spec: the order of the Curve25519 scalar field
  (\<^verbatim>\<open>sxt/scalar25\<close> is missing). A scalar \<^verbatim>\<open>s25t::element\<close> is the natural number its
  32 bytes encode; every operation reduces modulo the order.
\<close>

type_synonym scalar = nat

definition s25_order :: nat where
  "s25_order = 2 ^ 252 + 27742317777372353535851937790883648493"

text \<open>Modelled from the spec: \<^verbatim>\<open>s25o::mul(r, a, b)\<close> sets \<open>r = a * b\<close>.\<close>

definition s25_mul :: "scalar \<Rightarrow> scalar \<Rightarrow> scalar" where
  "s25_mul a b = (a * b) mod s25_order"

text \<open>Modelled from the spec: \<^verbatim>\<open>s25o::muladd(r, a, b, c)\<close> sets \<open>r = a * b + c\<close>.\<close>

definition s25_muladd :: "scalar \<Rightarrow> scalar \<Rightarrow> scalar \<Rightarrow> scalar" where
  "s25_muladd a b c = (a * b + c) mod s25_order"

text \<open>
  Modelled from the spec: \<^verbatim>\<open>s25o::inv(r, a)\<close> sets \<open>r\<close> to the inverse of \<open>a\<close> in
  the field, here as the power \<open>a ^ (order - 2)\<close> computed by repeated squaring.
\<close>

definition s25_inv :: "scalar \<Rightarrow> scalar" where
  "s25_inv a = efficient_funpow s25_mul 1 a (s25_order - 2)"

text \<open>
  Modelled from the spec: \<^verbatim>\<open>s25o::async_inner_product(u, v)\<close>, the inner product of
  two spans of scalars (over the indices both spans have).
\<close>

definition inner_product :: "scalar list \<Rightarrow> scalar list \<Rightarrow> scalar" where
  "inner_product u v = sum_list (map2 (*) u v) mod s25_order"

subsection \<open>Failures\<close>

text \<open>
  Every function of the driver and of the kernels is \<^verbatim>\<open>noexcept\<close> and returns a future
  of \<^verbatim>\<open>void\<close> (or of the workspace): the source has no error value. What it has is
  \<^verbatim>\<open>SXT_DEBUG_ASSERT\<close>, which, in a build that checks it, stops the program when its
  condition is false; that is \<open>AssertionFailed\<close>. Reading a span outside its bounds is undefined in the source and is
  \<open>OutOfBounds\<close> here. The remaining constructors are the error kinds of the
  specification's taxonomy; no function of the model returns them.
\<close>

datatype error =
    AssertionFailed
  | OutOfBounds
  | InvalidShape
  | LengthMismatch
  | DegenerateRound
  | ProtocolMisuse
  | WrongMemorySpace
  | ResourceExhausted
  | CollaboratorFailure

definition and_then :: "error + 'a \<Rightarrow> ('a \<Rightarrow> error + 'b) \<Rightarrow> error + 'b" where
  "and_then r f = (case r of Inl e \<Rightarrow> Inl e | Inr v \<Rightarrow> f v)"

section \<open>The scalar fold kernel\<close>

text \<open>
  \<^verbatim>\<open>algi::for_each(f, n)\<close> calls \<^verbatim>\<open>f(n, i)\<close> for every \<^verbatim>\<open>unsigned i\<close> below \<open>n\<close>
  (its header is missing; on the device the calls are the threads of one kernel). The
  model runs them in ascending order on the state they share.
\<close>

definition for_each :: "(32 word \<Rightarrow> 32 word \<Rightarrow> 'a \<Rightarrow> 'a) \<Rightarrow> 32 word \<Rightarrow> 'a \<Rightarrow> 'a" where
  "for_each f n s = foldl (\<lambda>s i. f n (word_of_nat i) s) s [0..<unat n]"

text \<open>
  The body of the functor of \<^verbatim>\<open>fold_scalars_case1\<close>: \<^verbatim>\<open>x\<close> is a reference to
  \<^verbatim>\<open>data[i]\<close>, so \<^verbatim>\<open>mul(x, m_low, x)\<close> and \<^verbatim>\<open>muladd(x, m_high, data[mid + i], x)\<close>
  are two writes of that element; \<^verbatim>\<open>mid + i\<close> is a sum of two \<^verbatim>\<open>unsigned\<close>.
\<close>

definition case1_item ::
  "scalar \<Rightarrow> scalar \<Rightarrow> 32 word \<Rightarrow> 32 word \<Rightarrow> 32 word \<Rightarrow> scalar list \<Rightarrow> scalar list" where
  "case1_item m_low m_high mid m i data =
     (let data1 = data[unat i := s25_mul m_low (data ! unat i)]
      in data1[unat i := s25_muladd m_high (data1 ! unat (mid + i)) (data1 ! unat i)])"

definition fold_scalars_case1 ::
  "scalar list \<Rightarrow> scalar \<Rightarrow> scalar \<Rightarrow> 32 word \<Rightarrow> 32 word \<Rightarrow> scalar list" where
  "fold_scalars_case1 scalars m_low m_high mid m =
     for_each (case1_item m_low m_high mid) m scalars"

text \<open>
  The functor of \<^verbatim>\<open>fold_scalars_case2\<close> works on \<^verbatim>\<open>data = scalars.data() + m\<close>:
  element \<open>i\<close> of \<^verbatim>\<open>data\<close> is element \<open>m + i\<close> of the span (pointer arithmetic, no
  wrap-around). The range is \<^verbatim>\<open>mid - m\<close>, a difference of two \<^verbatim>\<open>unsigned\<close>.
\<close>

definition case2_item :: "scalar \<Rightarrow> 32 word \<Rightarrow> 32 word \<Rightarrow> 32 word \<Rightarrow> scalar list \<Rightarrow> scalar list" where
  "case2_item m_low m k i scalars =
     scalars[unat m + unat i := s25_mul m_low (scalars ! (unat m + unat i))]"

definition fold_scalars_case2 ::
  "scalar list \<Rightarrow> scalar \<Rightarrow> 32 word \<Rightarrow> 32 word \<Rightarrow> scalar list" where
  "fold_scalars_case2 scalars m_low mid m =
     for_each (case2_item m_low m) (mid - m) scalars"

text \<open>
  \<^verbatim>\<open>fold_scalars\<close>. The span is the list of its elements together with the answer of
  \<^verbatim>\<open>basdv::is_device_pointer(scalars.data())\<close>. \<^verbatim>\<open>n\<close> is a \<^verbatim>\<open>size_t\<close>, \<^verbatim>\<open>mid\<close> an
  \<^verbatim>\<open>unsigned\<close>: the product \<^verbatim>\<open>2u * mid\<close> is computed in 32 bits, the comparisons and
  \<^verbatim>\<open>n - mid\<close> in \<^verbatim>\<open>size_t\<close>, and \<^verbatim>\<open>m\<close> is narrowed to \<^verbatim>\<open>unsigned\<close> when it is
  passed on. The two cases are started one after the other and awaited together.
\<close>

definition fold_scalars ::
  "bool \<Rightarrow> scalar list \<Rightarrow> scalar \<Rightarrow> scalar \<Rightarrow> 32 word \<Rightarrow> error + scalar list" where
  "fold_scalars is_device_pointer scalars m_low m_high mid =
     (let n = length scalars in
      if \<not> (is_device_pointer \<and> 0 < mid \<and> unat mid < n \<and> n \<le> unat (2 * mid))
      then Inl AssertionFailed
      else
        let m = n - unat mid;
            fut1 = fold_scalars_case1 scalars m_low m_high mid (word_of_nat m)
        in if m = unat mid then Inr fut1
           else Inr (fold_scalars_case2 fut1 m_low mid (word_of_nat m)))"

text \<open>
  What a function on a span of \<open>n\<close> elements writes and reads, taken from the function
  itself: it changes element \<open>j\<close> when some span comes back with another value there,
  and it depends on element \<open>k\<close> when another value there can change what it leaves in
  an element it changes.
\<close>

definition changed_by :: "('a list \<Rightarrow> 'a list) \<Rightarrow> nat \<Rightarrow> nat set" where
  "changed_by f n = {j. j < n \<and> (\<exists>data. length data = n \<and> f data ! j \<noteq> data ! j)}"

definition depends_on :: "('a list \<Rightarrow> 'a list) \<Rightarrow> nat \<Rightarrow> nat set" where
  "depends_on f n =
     {k. k < n \<and> (\<exists>data v j. length data = n \<and> j \<in> changed_by f n
                      \<and> f (data[k := v]) ! j \<noteq> f data ! j)}"

text \<open>
  The elements the work items of the two cases write, and the elements they read other
  than the one they write themselves. The items are those \<^verbatim>\<open>for_each\<close> starts in
  \<^verbatim>\<open>fold_scalars_case1\<close> and in \<^verbatim>\<open>fold_scalars_case2\<close>, each with the functor of its
  case.
\<close>

definition case1_written :: "scalar \<Rightarrow> scalar \<Rightarrow> 32 word \<Rightarrow> 32 word \<Rightarrow> nat \<Rightarrow> nat set" where
  "case1_written m_low m_high mid m n =
     (\<Union>i\<in>{0..<unat m}. changed_by (case1_item m_low m_high mid m (word_of_nat i)) n)"

definition case1_read_other :: "scalar \<Rightarrow> scalar \<Rightarrow> 32 word \<Rightarrow> 32 word \<Rightarrow> nat \<Rightarrow> nat set" where
  "case1_read_other m_low m_high mid m n =
     (\<Union>i\<in>{0..<unat m}. depends_on (case1_item m_low m_high mid m (word_of_nat i)) n
                           - changed_by (case1_item m_low m_high mid m (word_of_nat i)) n)"

definition case2_written :: "scalar \<Rightarrow> 32 word \<Rightarrow> 32 word \<Rightarrow> nat \<Rightarrow> nat set" where
  "case2_written m_low mid m n =
     (\<Union>i\<in>{0..<unat (mid - m)}. changed_by (case2_item m_low m (mid - m) (word_of_nat i)) n)"

definition case2_read_other :: "scalar \<Rightarrow> 32 word \<Rightarrow> 32 word \<Rightarrow> nat \<Rightarrow> nat set" where
  "case2_read_other m_low mid m n =
     (\<Union>i\<in>{0..<unat (mid - m)}. depends_on (case2_item m_low m (mid - m) (word_of_nat i)) n
                                  - changed_by (case2_item m_low m (mid - m) (word_of_nat i)) n)"

text \<open>
  On the device the work items of the two kernels run concurrently. A schedule is an
  order in which they run, one at a time: \<open>Case1 i\<close> is item \<open>i\<close> of case 1 and
  \<open>Case2 i\<close> item \<open>i\<close> of case 2, and \<open>work_items\<close> are the items the two calls of
  \<^verbatim>\<open>for_each\<close> start.
\<close>

datatype work_item = Case1 nat | Case2 nat

definition run_item ::
  "scalar \<Rightarrow> scalar \<Rightarrow> 32 word \<Rightarrow> 32 word \<Rightarrow> work_item \<Rightarrow> scalar list \<Rightarrow> scalar list" where
  "run_item m_low m_high mid m item data =
     (case item of
        Case1 i \<Rightarrow> case1_item m_low m_high mid m (word_of_nat i) data
      | Case2 i \<Rightarrow> case2_item m_low m (mid - m) (word_of_nat i) data)"

definition work_items :: "32 word \<Rightarrow> 32 word \<Rightarrow> work_item set" where
  "work_items mid m = Case1 ` {0..<unat m} \<union> Case2 ` {0..<unat (mid - m)}"

definition run_schedule ::
  "scalar \<Rightarrow> scalar \<Rightarrow> 32 word \<Rightarrow> 32 word \<Rightarrow> work_item list \<Rightarrow> scalar list \<Rightarrow> scalar list" where
  "run_schedule m_low m_high mid m schedule data =
     foldl (\<lambda>data item. run_item m_low m_high mid m item data) data schedule"

section \<open>The device driver\<close>

subsection \<open>Group elements, multi-exponentiation, spans\<close>

text \<open>
  Modelled from the spec: a GroupElement (\<^verbatim>\<open>c21t::element_p3\<close>, \<^verbatim>\<open>sxt/curve21\<close> is
  missing) is a point of a commutative group written additively, so any type of class
  \<open>comm_monoid_add\<close> stands for it; \<^verbatim>\<open>c21o::add(r, p, q)\<close> is \<open>p + q\<close> and
  \<^verbatim>\<open>c21o::scalar_multiply(r, s, q)\<close> adds \<open>q\<close> to itself \<open>s\<close> times.
\<close>

definition scalar_multiply :: "nat \<Rightarrow> 'g::comm_monoid_add \<Rightarrow> 'g" where
  "scalar_multiply s q = ((+) q ^^ s) 0"

text \<open>
  Modelled from the spec: \<^verbatim>\<open>mtxc21::async_compute_multiexponentiation(points, scalars)\<close>
  computes the sum of \<open>scalars[i] * points[i]\<close> (\<^verbatim>\<open>mtxb::to_exponent_sequence\<close> only
  views the scalars as exponents).
\<close>

definition multiexp :: "'g::comm_monoid_add list \<Rightarrow> scalar list \<Rightarrow> 'g" where
  "multiexp points scalars = sum_list (map2 scalar_multiply scalars points)"

text \<open>
  Modelled from the spec: the sub-ranges \<^verbatim>\<open>subspan(v, offset, count)\<close> and
  \<^verbatim>\<open>subspan(v, offset)\<close> of \<^verbatim>\<open>basct\<close> (\<^verbatim>\<open>span_utility.h\<close> is missing). A range that
  leaves the span is undefined in the source; the model stops with \<open>OutOfBounds\<close>.
\<close>

definition subspan :: "'a list \<Rightarrow> nat \<Rightarrow> nat \<Rightarrow> error + 'a list" where
  "subspan v offset count =
     (if offset + count \<le> length v then Inr (take count (drop offset v)) else Inl OutOfBounds)"

definition subspan_from :: "'a list \<Rightarrow> nat \<Rightarrow> error + 'a list" where
  "subspan_from v offset =
     (if offset \<le> length v then Inr (drop offset v) else Inl OutOfBounds)"

text \<open>
  Modelled from the spec: \<^verbatim>\<open>memmg::managed_array::shrink(k)\<close> keeps the first \<open>k\<close>
  elements (a logical shrink).
\<close>

definition shrink :: "'a list \<Rightarrow> nat \<Rightarrow> 'a list" where
  "shrink v k = take k v"

text \<open>
  Modelled from the spec: the generator fold of \<^verbatim>\<open>generator_fold_kernel.h\<close> (missing).
  \<^verbatim>\<open>decompose_generator_fold(decomposition, m_low, m_high)\<close> encodes the two multipliers
  bit by bit; the model keeps the pair. \<^verbatim>\<open>fold_generators(g, decomposition)\<close> has the
  contract of the scalar fold with \<open>mid = |g| / 2\<close>: \<open>g[i]\<close> becomes
  \<open>m_low * g[i] + m_high * g[mid + i]\<close>, with the same preconditions.
\<close>

definition decompose_generator_fold :: "scalar \<Rightarrow> scalar \<Rightarrow> scalar \<times> scalar" where
  "decompose_generator_fold m_low m_high = (m_low, m_high)"

definition fold_generators ::
  "bool \<Rightarrow> 'g::comm_monoid_add list \<Rightarrow> scalar \<times> scalar \<Rightarrow> error + 'g list" where
  "fold_generators is_device_pointer g_vector decomposition =
     (let n = length g_vector; mid = n div 2 in
      if \<not> (is_device_pointer \<and> 0 < mid \<and> mid < n \<and> n \<le> 2 * mid) then Inl AssertionFailed
      else Inr (map (\<lambda>i. if i < mid
                          then scalar_multiply (fst decomposition) (g_vector ! i)
                               + scalar_multiply (snd decomposition) (g_vector ! (mid + i))
                          else g_vector ! i) [0..<n]))"

subsection \<open>Descriptor and workspace\<close>

text \<open>
  \<^verbatim>\<open>proof_descriptor\<close> and \<^verbatim>\<open>gpu_workspace\<close> are declared in headers that are missing;
  the fields are the ones the driver uses. The workspace points to its descriptor, which
  nobody changes, so the record holds the descriptor itself. The three arrays of a
  workspace come from one allocator; \<open>on_device\<close> says whether their memory is device
  memory, which is what \<^verbatim>\<open>basdv::is_device_pointer\<close> answers for each of them.
\<close>

record 'g proof_descriptor =
  b_vector :: "scalar list"
  g_vector :: "'g list"
  q_value :: "'g"

record 'g gpu_workspace =
  descriptor :: "'g proof_descriptor"
  round_index :: nat
  a_vector :: "scalar list"
  b_vector :: "scalar list"
  g_vector :: "'g list"
  on_device :: bool

subsection \<open>\<^verbatim>\<open>make_workspace\<close>\<close>

text \<open>
  Each array is allocated with the size of its source and filled by
  \<^verbatim>\<open>async_copy_host_to_device\<close>; the future resolves when the copies are done. There is
  no check and no failing branch.
\<close>

definition gpu_driver_make_workspace ::
  "'g proof_descriptor \<Rightarrow> scalar list \<Rightarrow> error + 'g gpu_workspace" where
  "gpu_driver_make_workspace descr a =
     Inr \<lparr> descriptor = descr,
           round_index = 0,
           a_vector = a,
           b_vector = proof_descriptor.b_vector descr,
           g_vector = proof_descriptor.g_vector descr,
           on_device = True \<rparr>"

subsection \<open>\<^verbatim>\<open>commit_to_fold\<close>\<close>

text \<open>
  \<^verbatim>\<open>commit_to_fold_partial\<close> returns what it writes into \<^verbatim>\<open>commit\<close>; \<open>compress\<close> is
  \<^verbatim>\<open>rsto::compress\<close>, a parameter.
\<close>

definition commit_to_fold_partial ::
  "('g::comm_monoid_add \<Rightarrow> 'c) \<Rightarrow> 'g list \<Rightarrow> 'g \<Rightarrow> scalar list \<Rightarrow> scalar list \<Rightarrow> error + 'c" where
  "commit_to_fold_partial compress g q u_vector v_vector =
     and_then (subspan g 0 (length u_vector)) (\<lambda>g_sub.
       let u_commit = multiexp g_sub u_vector;
           product = inner_product u_vector v_vector;
           commit_p = scalar_multiply product q;
           commit_p = u_commit + commit_p
       in Inr (compress commit_p))"

text \<open>
  \<^verbatim>\<open>commit_to_fold\<close> takes the two slots \<^verbatim>\<open>l_value\<close> and \<^verbatim>\<open>r_value\<close> by reference:
  the model takes their contents and returns them after the call, next to the failure
  if there is one. The two partial commitments are started together and awaited one
  after the other; they read the same vectors and write different slots, and the model
  computes the left one first.
\<close>

definition gpu_driver_commit_to_fold ::
  "('g::comm_monoid_add \<Rightarrow> 'c) \<Rightarrow> 'c \<times> 'c \<Rightarrow> 'g gpu_workspace \<Rightarrow> error option \<times> ('c \<times> 'c)" where
  "gpu_driver_commit_to_fold compress slots work =
     (let mid = length (g_vector work) div 2 in
      if \<not> mid > 0 then (Some AssertionFailed, slots)
      else
        case
          and_then (subspan (a_vector work) 0 mid) (\<lambda>a_low.
          and_then (subspan_from (a_vector work) mid) (\<lambda>a_high.
          and_then (subspan (b_vector work) 0 mid) (\<lambda>b_low.
          and_then (subspan_from (b_vector work) mid) (\<lambda>b_high.
          and_then (subspan (g_vector work) 0 mid) (\<lambda>g_low.
          and_then (subspan_from (g_vector work) mid) (\<lambda>g_high.
            Inr (a_low, a_high, b_low, b_high, g_low, g_high)))))))
        of
          Inl e \<Rightarrow> (Some e, slots)
        | Inr (a_low, a_high, b_low, b_high, g_low, g_high) \<Rightarrow>
            (case commit_to_fold_partial compress g_high (q_value (descriptor work)) a_low b_high of
               Inl e \<Rightarrow> (Some e, slots)
             | Inr l_value \<Rightarrow>
                (case commit_to_fold_partial compress g_low (q_value (descriptor work)) a_high b_low of
                   Inl e \<Rightarrow> (Some e, (l_value, snd slots))
                 | Inr r_value \<Rightarrow> (None, (l_value, r_value)))))"

subsection \<open>\<^verbatim>\<open>fold\<close>\<close>

text \<open>
  \<^verbatim>\<open>mid\<close> is a \<^verbatim>\<open>size_t\<close> here and is narrowed to \<^verbatim>\<open>unsigned\<close> when it is passed to
  \<^verbatim>\<open>fold_scalars\<close>. When \<^verbatim>\<open>mid == 1\<close> the function returns after the fold of
  \<^verbatim>\<open>a_vector\<close>: \<^verbatim>\<open>b_vector\<close> and \<^verbatim>\<open>g_vector\<close> are neither folded nor shrunk.
  Otherwise the three folds are started one after the other and awaited at the end;
  each works on its own array, and \<^verbatim>\<open>shrink\<close> only changes the logical size of an
  array, so the model finishes each fold before it shrinks.
\<close>

definition gpu_driver_fold ::
  "'g::comm_monoid_add gpu_workspace \<Rightarrow> scalar \<Rightarrow> error + 'g gpu_workspace" where
  "gpu_driver_fold work x =
     (let mid = length (g_vector work) div 2;
          work = work\<lparr>round_index := round_index work + 1\<rparr>;
          x_inv = s25_inv x
      in
        and_then (fold_scalars (on_device work) (a_vector work) x x_inv (word_of_nat mid)) (\<lambda>a_fut.
          let work = work\<lparr>a_vector := shrink a_fut mid\<rparr> in
          if mid = 1 then Inr work
          else
            and_then (fold_scalars (on_device work) (b_vector work) x_inv x (word_of_nat mid)) (\<lambda>b_fut.
              let work = work\<lparr>b_vector := shrink b_fut mid\<rparr>;
                  decomposition = decompose_generator_fold x_inv x
              in
                and_then (fold_generators (on_device work) (g_vector work) decomposition) (\<lambda>g_fut.
                  Inr (work\<lparr>g_vector := shrink g_fut mid\<rparr>)))))"

text \<open>
  The orchestrator calls \<^verbatim>\<open>fold\<close> once per round; \<open>fold_rounds\<close> runs it for a list of
  challenges and stops at the first failure.
\<close>

fun fold_rounds ::
  "'g::comm_monoid_add gpu_workspace \<Rightarrow> scalar list \<Rightarrow> error + 'g gpu_workspace" where
  "fold_rounds work [] = Inr work"
| "fold_rounds work (x # xs) = and_then (gpu_driver_fold work x) (\<lambda>work'. fold_rounds work' xs)"

subsection \<open>\<^verbatim>\<open>compute_expected_commitment\<close>\<close>

text \<open>
  The device driver constructs a \<^verbatim>\<open>cpu_driver\<close> and returns what its
  \<^verbatim>\<open>compute_expected_commitment\<close> returns on the same arguments. \<^verbatim>\<open>cpu_driver.cc\<close> is
  missing: the host function is a parameter, and its result (what it leaves in
  \<^verbatim>\<open>commit\<close>) is of any type.
\<close>

definition gpu_driver_compute_expected_commitment ::
  "('c \<Rightarrow> 'g proof_descriptor \<Rightarrow> 'c list \<Rightarrow> 'c list \<Rightarrow> scalar list \<Rightarrow> scalar \<Rightarrow> 'r)
   \<Rightarrow> 'c \<Rightarrow> 'g proof_descriptor \<Rightarrow> 'c list \<Rightarrow> 'c list \<Rightarrow> scalar list \<Rightarrow> scalar \<Rightarrow> 'r" where
  "gpu_driver_compute_expected_commitment cpu_driver_compute_expected_commitment
       commit descr l_vector r_vector x_vector ap_value =
     cpu_driver_compute_expected_commitment commit descr l_vector r_vector x_vector ap_value"

section \<open>Naive sequence commitments on the host\<close>

text \<open>
  \<^verbatim>\<open>mtxb::exponent_sequence\<close> (its header is missing) has the fields of
  \<^verbatim>\<open>sxt_dense_sequence_descriptor\<close>; \<^verbatim>\<open>n\<close> and \<^verbatim>\<open>data\<close> are \<open>seq_n\<close> and \<open>seq_data\<close>
  here. \<^verbatim>\<open>data\<close> is a pointer to bytes: the model reads the byte at an offset from it.
\<close>

type_synonym byte = "8 word"

record exponent_sequence =
  element_nbytes :: byte
  seq_n :: nat
  seq_data :: "nat \<Rightarrow> byte"

text \<open>
  Modelled from the spec: \<^verbatim>\<open>fill_data(a_i, bytes, size)\<close> (\<^verbatim>\<open>fill_data.h\<close> is missing),
  as the comment at its call describes it: the \<open>size\<close> bytes of the element at the
  beginning of the 32 bytes of \<^verbatim>\<open>a_i\<close>, zeros after them.
\<close>

definition fill_data :: "(nat \<Rightarrow> byte) \<Rightarrow> byte \<Rightarrow> byte list" where
  "fill_data bytes_row size_row = map (\<lambda>j. if j < unat size_row then bytes_row j else 0) [0..<32]"

text \<open>
  Modelled from the spec: \<^verbatim>\<open>c21o::scalar_multiply(h, a, g)\<close> with \<^verbatim>\<open>uint8_t a[32]\<close>
  multiplies by the number the 32 bytes encode, least significant byte first.
\<close>

definition from_le_bytes :: "byte list \<Rightarrow> nat" where
  "from_le_bytes bs = foldr (\<lambda>b acc. unat b + 256 * acc) bs 0"

text \<open>
  One pass of the loop over the rows. \<open>compute_base_element\<close> is
  \<^verbatim>\<open>sqcb::compute_base_element\<close>, a parameter. The offset \<^verbatim>\<open>row_i * element_nbytes\<close> is
  a \<^verbatim>\<open>size_t\<close>; it stays below \<open>2 ^ 64\<close> because the sequence is an object in memory.
\<close>

definition commitment_row ::
  "(nat \<Rightarrow> 'g::comm_monoid_add) \<Rightarrow> exponent_sequence \<Rightarrow> 'g \<Rightarrow> nat \<Rightarrow> 'g" where
  "commitment_row compute_base_element column_k_data p_k row_i =
     (let nbytes = element_nbytes column_k_data;
          bytes_row_i_column_k = (\<lambda>j. seq_data column_k_data (row_i * unat nbytes + j));
          g_i = compute_base_element row_i;
          a_i = fill_data bytes_row_i_column_k nbytes;
          h_i = scalar_multiply (from_le_bytes a_i) g_i
      in if row_i = 0 then h_i else p_k + h_i)"

text \<open>
  \<^verbatim>\<open>p_k\<close> is declared without a value: \<open>p_uninit\<close> is whatever the variable holds then.
  \<open>to_bytes\<close> is \<^verbatim>\<open>c21rs::to_bytes\<close>, a parameter.
\<close>

definition compute_commitments_cpu ::
  "(nat \<Rightarrow> 'g::comm_monoid_add) \<Rightarrow> ('g \<Rightarrow> 'c) \<Rightarrow> 'g \<Rightarrow> 'c list \<Rightarrow> exponent_sequence list
   \<Rightarrow> error + 'c list" where
  "compute_commitments_cpu compute_base_element to_bytes p_uninit commitments value_sequences =
     (if \<not> length commitments = length value_sequences then Inl AssertionFailed
      else Inr (foldl (\<lambda>commitments colum_k.
                  let column_k_data = value_sequences ! colum_k;
                      p_k = foldl (commitment_row compute_base_element column_k_data) p_uninit
                              [0..<seq_n column_k_data]
                  in commitments[colum_k := to_bytes p_k])
                commitments [0..<length commitments]))"

section \<open>Properties of the scalar fold kernel\<close>

subsection \<open>The two loops in closed form\<close>

lemma s25_muladd_mul:
  "s25_muladd m_high y (s25_mul m_low x) = (m_low * x + m_high * y) mod s25_order"
  by (simp add: s25_muladd_def s25_mul_def add.commute mod_add_right_eq)

lemma case1_item_nat:
  assumes "unat i < length data" "unat (mid + i) \<noteq> unat i"
  shows "case1_item m_low m_high mid m i data =
           data[unat i := (m_low * data ! unat i + m_high * data ! unat (mid + i)) mod s25_order]"
  using assms by (simp add: case1_item_def Let_def s25_muladd_mul)

lemma unat_of_nat32: "k < 2 ^ 32 \<Longrightarrow> unat (word_of_nat k :: 32 word) = k"
  by (simp add: unat_of_nat)

lemma unat_add32:
  "unat (mid :: 32 word) + k < 2 ^ 32 \<Longrightarrow> unat (mid + word_of_nat k) = unat mid + k"
  by (simp add: unat_word_ariths unat_of_nat)

lemma case1_loop:
  assumes "unat mid + k \<le> length s" "k \<le> unat mid" "unat mid + k \<le> 2 ^ 32" "0 < unat mid"
  shows "foldl (\<lambda>s i. case1_item m_low m_high mid m (word_of_nat i) s) s [0..<k] =
         map (\<lambda>j. if j < k then (m_low * s ! j + m_high * s ! (unat mid + j)) mod s25_order
                   else s ! j) [0..<length s]"
  using assms
proof (induction k)
  case 0
  show ?case by (simp add: map_nth)
next
  case (Suc k)
  have k32: "k < 2 ^ 32" using Suc.prems by simp
  have uk: "unat (word_of_nat k :: 32 word) = k" using k32 by (rule unat_of_nat32)
  have um: "unat (mid + word_of_nat k) = unat mid + k"
    using Suc.prems by (intro unat_add32) simp
  let ?t = "map (\<lambda>j. if j < k then (m_low * s ! j + m_high * s ! (unat mid + j)) mod s25_order
                   else s ! j) [0..<length s]"
  have IH: "foldl (\<lambda>s i. case1_item m_low m_high mid m (word_of_nat i) s) s [0..<k] = ?t"
    using Suc by simp
  have len: "length ?t = length s" by simp
  have step: "case1_item m_low m_high mid m (word_of_nat k) ?t =
      ?t[k := (m_low * ?t ! k + m_high * ?t ! (unat mid + k)) mod s25_order]"
    using case1_item_nat[of "word_of_nat k" ?t mid m_low m_high m] Suc.prems
    by (simp only: uk um len)
  have tk: "?t ! k = s ! k" using Suc.prems by simp
  have tmk: "?t ! (unat mid + k) = s ! (unat mid + k)" using Suc.prems by simp
  show ?case
    unfolding upt_Suc_append[OF le0] foldl_append IH
    apply (simp only: foldl.simps step tk tmk)
    apply (rule nth_equalityI)
     apply simp
    apply (auto simp: nth_list_update less_Suc_eq)
    done
qed


lemma case2_loop:
  assumes "unat m + k \<le> length s" "k \<le> 2 ^ 32"
  shows "foldl (\<lambda>s i. case2_item m_low m kk (word_of_nat i) s) s [0..<k] =
         map (\<lambda>j. if unat m \<le> j \<and> j < unat m + k then (m_low * s ! j) mod s25_order
                   else s ! j) [0..<length s]"
  using assms
proof (induction k)
  case 0
  show ?case by (intro nth_equalityI) auto
next
  case (Suc k)
  have uk: "unat (word_of_nat k :: 32 word) = k"
    using Suc.prems by (intro unat_of_nat32) simp
  let ?t = "map (\<lambda>j. if unat m \<le> j \<and> j < unat m + k then (m_low * s ! j) mod s25_order
                   else s ! j) [0..<length s]"
  have IH: "foldl (\<lambda>s i. case2_item m_low m kk (word_of_nat i) s) s [0..<k] = ?t"
    using Suc by simp
  have tk: "?t ! (unat m + k) = s ! (unat m + k)" using Suc.prems by simp
  have step: "case2_item m_low m kk (word_of_nat k) ?t =
      ?t[unat m + k := (m_low * s ! (unat m + k)) mod s25_order]"
    unfolding case2_item_def uk tk by (simp only: s25_mul_def)
  show ?case
    unfolding upt_Suc_append[OF le0] foldl_append IH
    apply (simp only: foldl.simps step)
    apply (rule nth_equalityI)
     apply simp
    apply (auto simp: nth_list_update less_Suc_eq)
    done
qed

lemma fold_scalars_closed:
  assumes dev: "is_device_pointer"
    and mid0: "0 < unat mid"
    and midn: "unat mid < length s"
    and n2: "length s \<le> 2 * unat mid"
    and fits: "2 * unat mid < 2 ^ 32"
  shows "fold_scalars is_device_pointer s m_low m_high mid =
     Inr (map (\<lambda>j. if j < length s - unat mid
                      then (m_low * s ! j + m_high * s ! (unat mid + j)) mod s25_order
                    else if j < unat mid then (m_low * s ! j) mod s25_order
                    else s ! j) [0..<length s])"
proof -
  let ?n = "length s"
  let ?m = "?n - unat mid"
  have two: "unat (2 * mid) = 2 * unat mid"
    using fits by (simp add: unat_word_ariths)
  have pos: "0 < mid" using mid0 by (simp add: word_gt_0 unat_gt_0)
  have pre: "is_device_pointer \<and> 0 < mid \<and> unat mid < ?n \<and> ?n \<le> unat (2 * mid)"
    using dev pos midn n2 two by simp
  then have npre: "\<not> \<not> (is_device_pointer \<and> 0 < mid \<and> unat mid < ?n \<and> ?n \<le> unat (2 * mid))"
    by simp
  have m32: "?m < 2 ^ 32" using n2 fits by simp
  have um: "unat (word_of_nat ?m :: 32 word) = ?m" using m32 by (rule unat_of_nat32)
  have mle: "(word_of_nat ?m :: 32 word) \<le> mid"
    using n2 um by (simp add: word_le_nat_alt)
  have udiff: "unat (mid - word_of_nat ?m) = unat mid - ?m"
    using unat_sub[OF mle] um by simp
  let ?s1 = "map (\<lambda>j. if j < ?m then (m_low * s ! j + m_high * s ! (unat mid + j)) mod s25_order
                   else s ! j) [0..<?n]"
  have c1: "fold_scalars_case1 s m_low m_high mid (word_of_nat ?m) = ?s1"
    unfolding fold_scalars_case1_def for_each_def um
    using midn n2 fits mid0 by (intro case1_loop) simp_all
  have len1: "length ?s1 = ?n" by simp
  have c2: "fold_scalars_case2 ?s1 m_low mid (word_of_nat ?m) =
      map (\<lambda>j. if ?m \<le> j \<and> j < ?m + (unat mid - ?m) then (m_low * ?s1 ! j) mod s25_order
                   else ?s1 ! j) [0..<?n]"
    unfolding fold_scalars_case2_def for_each_def udiff
    using case2_loop[of "word_of_nat ?m" "unat mid - ?m" ?s1 m_low "mid - word_of_nat ?m"]
      midn n2 fits
    by (simp only: um len1)
  have unf: "fold_scalars is_device_pointer s m_low m_high mid =
      (if ?m = unat mid then Inr ?s1
       else Inr (fold_scalars_case2 ?s1 m_low mid (word_of_nat ?m)))"
    unfolding fold_scalars_def Let_def c1 by (simp only: if_not_P[OF npre])
  let ?r = "map (\<lambda>j. if j < length s - unat mid
                      then (m_low * s ! j + m_high * s ! (unat mid + j)) mod s25_order
                    else if j < unat mid then (m_low * s ! j) mod s25_order
                    else s ! j) [0..<length s]"
  show ?thesis
  proof (cases "?m = unat mid")
    case True
    have eq: "?s1 = ?r"
      using True by (intro nth_equalityI) auto
    show ?thesis
      unfolding unf by (simp only: if_P[OF True] eq)
  next
    case False
    have eq: "map (\<lambda>j. if ?m \<le> j \<and> j < ?m + (unat mid - ?m) then (m_low * ?s1 ! j) mod s25_order
                   else ?s1 ! j) [0..<?n] = ?r"
      using midn n2 by (intro nth_equalityI) auto
    show ?thesis
      unfolding unf by (simp only: if_not_P[OF False] c2 eq)
  qed
qed

lemma s25_order_gt: "1000 < s25_order"
  by (simp add: s25_order_def)

text \<open>
  When the assertion of \<^verbatim>\<open>fold_scalars\<close> holds, the 32-bit product \<^verbatim>\<open>2u * mid\<close> has
  not wrapped around.
\<close>

lemma asserted_shape:
  fixes mid :: "32 word"
  assumes "0 < mid" and "unat mid < n" and "n \<le> unat (2 * mid)"
  shows "0 < unat mid" and "n \<le> 2 * unat mid" and "2 * unat mid < 2 ^ 32"
proof -
  show "0 < unat mid" using assms(1) by (simp add: word_gt_0 unat_gt_0)
  have two: "unat (2 * mid) = (2 * unat mid) mod 2 ^ 32"
    by (simp add: unat_word_ariths)
  then have "unat (2 * mid) \<le> 2 * unat mid" by simp
  with assms(3) show "n \<le> 2 * unat mid" by simp
  have lt: "unat mid < 2 ^ 32" using unsigned_less[of mid] by simp
  show "2 * unat mid < 2 ^ 32"
  proof (rule ccontr)
    assume "\<not> 2 * unat mid < 2 ^ 32"
    then have ge: "2 ^ 32 \<le> 2 * unat mid" by simp
    then have "(2 * unat mid) mod 2 ^ 32 = 2 * unat mid - 2 ^ 32"
      using lt by (simp add: mod_if)
    then have "unat (2 * mid) < unat mid" using two lt ge by simp
    with assms(2,3) show False by simp
  qed
qed

subsection \<open>What the fold computes\<close>

text \<open>
  Claim C3. For a span \<open>s\<close> of length \<open>n\<close> in device memory and a midpoint with
  \<open>0 < mid < n \<le> 2 * mid\<close>, the precondition as the function asserts it (the product
  is \<^verbatim>\<open>2u * mid\<close>, in the 32 bits of \<^verbatim>\<open>unsigned\<close>), \<^verbatim>\<open>fold_scalars\<close> returns a span
  of the same length with, for \<open>m = n - mid\<close>,
  \<open>s'[i] = m_low * s[i] + m_high * s[mid + i]\<close> for \<open>i < m\<close> and
  \<open>s'[i] = m_low * s[i]\<close> for \<open>m \<le> i < mid\<close>, in the scalar field.
\<close>

theorem fold_scalars_contract:
  assumes "is_device_pointer" and "0 < mid" and "unat mid < length s"
    and "length s \<le> unat (2 * mid)"
  shows "\<exists>s'. fold_scalars is_device_pointer s m_low m_high mid = Inr s'
          \<and> length s' = length s
          \<and> (\<forall>i < length s - unat mid.
                s' ! i = (m_low * s ! i + m_high * s ! (unat mid + i)) mod s25_order)
          \<and> (\<forall>i. length s - unat mid \<le> i \<and> i < unat mid \<longrightarrow>
                s' ! i = (m_low * s ! i) mod s25_order)"
proof -
  note shape = asserted_shape[OF assms(2,3,4)]
  show ?thesis
    unfolding fold_scalars_closed[OF assms(1) shape(1) assms(3) shape(2,3)]
    using assms(3) by simp
qed

theorem fold_scalars_contract_witness:
  "fold_scalars True [1, 2, 3] 5 7 2 = Inr [26, 10, 3]"
proof -
  from fold_scalars_contract[of True 2 "[1, 2, 3]" 5 7]
  obtain s' where r: "fold_scalars True [1, 2, 3] 5 7 2 = Inr s'"
    and len: "length s' = 3"
    and lo: "\<forall>i<1. s' ! i = (5 * [1, 2, 3] ! i + 7 * [1, 2, 3] ! (2 + i)) mod s25_order"
    and tail: "\<forall>i. 1 \<le> i \<and> i < 2 \<longrightarrow> s' ! i = (5 * [1, 2, 3] ! i) mod s25_order"
    by auto
  have "s' ! 0 = 26" using lo s25_order_gt by simp
  moreover have "s' ! 1 = 10" using tail s25_order_gt by simp
  moreover have "fold_scalars True [1, 2, 3] 5 7 2 = Inr [26, 10, 3]"
    using s25_order_gt
    by (simp add: fold_scalars_def fold_scalars_case1_def fold_scalars_case2_def for_each_def
        case1_item_def case2_item_def s25_mul_def s25_muladd_def Let_def upt_rec)
  ultimately show ?thesis by simp
qed

subsection \<open>When the fold fails\<close>

text \<open>
  The source checks residency and shape in one \<^verbatim>\<open>SXT_DEBUG_ASSERT\<close>: a violated
  shape and a span outside device memory end in the same failure, which is neither of
  the two error kinds the specification names.
\<close>

theorem fold_scalars_error_kinds_counterexample:
  "fold_scalars True [1, 2] 1 1 0 = Inl AssertionFailed
   \<and> fold_scalars False [1, 2] 1 1 1 = Inl AssertionFailed
   \<and> fold_scalars True [1, 2] 1 1 0 \<noteq> Inl InvalidShape
   \<and> fold_scalars False [1, 2] 1 1 1 \<noteq> Inl WrongMemorySpace"
  by (simp add: fold_scalars_def)

text \<open>
  Claim C7, as amended. \<^verbatim>\<open>fold_scalars\<close> fails, with the failure of its one assertion,
  when the span is not in device memory, when \<open>mid = 0\<close>, when \<open>mid \<ge> n\<close> or when
  \<open>n > 2 * mid\<close>; for a span in device memory with \<open>0 < mid < n \<le> 2 * mid\<close>, the
  product taken as the source takes it, in 32 bits, it does not fail.
\<close>

theorem fold_scalars_assertion:
  "((\<not> is_device_pointer \<or> mid = 0 \<or> length s \<le> unat mid \<or> 2 * unat mid < length s)
      \<longrightarrow> fold_scalars is_device_pointer s m_low m_high mid = Inl AssertionFailed)
   \<and> (is_device_pointer \<and> 0 < mid \<and> unat mid < length s \<and> length s \<le> unat (2 * mid)
      \<longrightarrow> (\<exists>s'. fold_scalars is_device_pointer s m_low m_high mid = Inr s'))"
proof (intro conjI impI)
  assume bad: "\<not> is_device_pointer \<or> mid = 0 \<or> length s \<le> unat mid \<or> 2 * unat mid < length s"
  have "unat (2 * mid) \<le> 2 * unat mid"
    by (simp add: unat_word_ariths)
  with bad have np: "\<not> (is_device_pointer \<and> 0 < mid \<and> unat mid < length s \<and> length s \<le> unat (2 * mid))"
    by auto
  show "fold_scalars is_device_pointer s m_low m_high mid = Inl AssertionFailed"
    unfolding fold_scalars_def Let_def by (simp only: if_P[OF np])
next
  assume pre: "is_device_pointer \<and> 0 < mid \<and> unat mid < length s \<and> length s \<le> unat (2 * mid)"
  then have "0 < mid" "unat mid < length s" "length s \<le> unat (2 * mid)" by simp_all
  note shape = asserted_shape[OF this]
  show "\<exists>s'. fold_scalars is_device_pointer s m_low m_high mid = Inr s'"
    using fold_scalars_closed[of is_device_pointer mid s m_low m_high] pre shape by simp
qed

theorem fold_scalars_assertion_witness:
  "fold_scalars False [1, 2] 1 1 1 = Inl AssertionFailed
   \<and> fold_scalars True [1, 2] 1 1 0 = Inl AssertionFailed
   \<and> fold_scalars True [1, 2] 1 1 2 = Inl AssertionFailed
   \<and> fold_scalars True [1, 2, 3] 1 1 1 = Inl AssertionFailed
   \<and> (\<exists>s'. fold_scalars True [1, 2] 1 1 1 = Inr s')"
  using fold_scalars_assertion[of False 1 "[1, 2]" 1 1]
    fold_scalars_assertion[of True 0 "[1, 2]" 1 1]
    fold_scalars_assertion[of True 2 "[1, 2]" 1 1]
    fold_scalars_assertion[of True 1 "[1, 2, 3]" 1 1]
    fold_scalars_assertion[of True 1 "[1, 2]" 1 1]
  by simp

subsection \<open>Any order of the work items\<close>

text \<open>
  An item changes the one element it writes and nothing else. Since no item writes what
  another one reads or writes, every schedule that runs each item of the two cases once
  ends in the state \<^verbatim>\<open>fold_scalars\<close> returns: the ascending order of the model is one
  of them.
\<close>

lemma case1_item_frame:
  "length (case1_item m_low m_high mid m i data) = length data"
  "j \<noteq> unat i \<Longrightarrow> case1_item m_low m_high mid m i data ! j = data ! j"
  by (simp_all add: case1_item_def Let_def)

lemma case2_item_frame:
  "length (case2_item m_low m k i data) = length data"
  "j \<noteq> unat m + unat i \<Longrightarrow> case2_item m_low m k i data ! j = data ! j"
  by (simp_all add: case2_item_def)

lemma run_schedule_closed:
  assumes mid0: "0 < unat mid"
    and midn: "unat mid < length s"
    and n2: "length s \<le> 2 * unat mid"
    and fits: "2 * unat mid < 2 ^ 32"
    and m: "m = word_of_nat (length s - unat mid)"
    and dist: "distinct schedule"
    and sub: "set schedule \<subseteq> work_items mid m"
  shows "run_schedule m_low m_high mid m schedule s =
     map (\<lambda>j. if Case1 j \<in> set schedule
                 then (m_low * s ! j + m_high * s ! (unat mid + j)) mod s25_order
               else if length s - unat mid \<le> j \<and> Case2 (j - (length s - unat mid)) \<in> set schedule
                 then (m_low * s ! j) mod s25_order
               else s ! j) [0..<length s]"
  using dist sub
proof (induction schedule rule: rev_induct)
  case Nil
  show ?case by (simp add: run_schedule_def map_nth)
next
  case (snoc item schedule)
  let ?m = "length s - unat mid"
  have m32: "?m < 2 ^ 32" using n2 fits by simp
  have um: "unat m = ?m" unfolding m using m32 by (rule unat_of_nat32)
  have mle: "m \<le> mid" using n2 um midn by (simp add: word_le_nat_alt)
  have udiff: "unat (mid - m) = unat mid - ?m"
    using unat_sub[OF mle] um by simp
  let ?t = "map (\<lambda>j. if Case1 j \<in> set schedule
                 then (m_low * s ! j + m_high * s ! (unat mid + j)) mod s25_order
               else if ?m \<le> j \<and> Case2 (j - ?m) \<in> set schedule
                 then (m_low * s ! j) mod s25_order
               else s ! j) [0..<length s]"
  have IH: "run_schedule m_low m_high mid m schedule s = ?t"
    using snoc by simp
  have new: "item \<notin> set schedule" using snoc.prems by simp
  have allowed: "set schedule \<subseteq> work_items mid m" "item \<in> work_items mid m"
    using snoc.prems by simp_all
  have len: "length ?t = length s" by simp
  have run: "run_schedule m_low m_high mid m (schedule @ [item]) s = run_item m_low m_high mid m item ?t"
    using IH by (simp add: run_schedule_def)
  show ?case
  proof (cases item)
    case (Case1 i)
    then have i: "i < ?m" using allowed(2) um by (auto simp: work_items_def)
    have ui: "unat (word_of_nat i :: 32 word) = i" using i m32 by (intro unat_of_nat32) simp
    have umi: "unat (mid + word_of_nat i) = unat mid + i"
      using i n2 fits by (intro unat_add32) simp
    have no1: "Case1 (unat mid + i) \<notin> set schedule"
      using allowed(1) um n2 by (auto simp: work_items_def)
    have no2: "Case2 (unat mid + i - ?m) \<notin> set schedule"
      using allowed(1) udiff i by (auto simp: work_items_def)
    have ti: "?t ! i = s ! i"
      using i midn new Case1 by simp
    have tmi: "?t ! (unat mid + i) = s ! (unat mid + i)"
      using i midn no1 no2 by simp
    have step: "run_item m_low m_high mid m item ?t =
        ?t[i := (m_low * s ! i + m_high * s ! (unat mid + i)) mod s25_order]"
      unfolding run_item_def Case1 work_item.case
      using case1_item_nat[of "word_of_nat i" ?t mid m_low m_high m] i midn mid0
      by (simp only: ui umi len ti tmi)
    show ?thesis
      unfolding run step
      using i midn Case1 by (intro nth_equalityI) (auto simp: nth_list_update)
  next
    case (Case2 i)
    then have i: "i < unat mid - ?m" using allowed(2) udiff by (auto simp: work_items_def)
    have ui: "unat (word_of_nat i :: 32 word) = i" using i fits by (intro unat_of_nat32) simp
    have no1: "Case1 (?m + i) \<notin> set schedule"
      using allowed(1) um by (auto simp: work_items_def)
    have ti: "?t ! (?m + i) = s ! (?m + i)"
      using i midn no1 new Case2 by simp
    have step: "run_item m_low m_high mid m item ?t =
        ?t[?m + i := (m_low * s ! (?m + i)) mod s25_order]"
      unfolding run_item_def Case2 work_item.case case2_item_def um ui ti
      by (simp only: s25_mul_def)
    show ?thesis
      unfolding run step
      using i midn Case2 no1 by (intro nth_equalityI) (auto simp: nth_list_update)
  qed
qed

lemma fold_scalars_any_order:
  assumes dev: "is_device_pointer"
    and mid0: "0 < unat mid"
    and midn: "unat mid < length s"
    and n2: "length s \<le> 2 * unat mid"
    and fits: "2 * unat mid < 2 ^ 32"
    and dist: "distinct schedule"
    and all: "set schedule = work_items mid (word_of_nat (length s - unat mid))"
  shows "fold_scalars is_device_pointer s m_low m_high mid =
     Inr (run_schedule m_low m_high mid (word_of_nat (length s - unat mid)) schedule s)"
proof -
  let ?m = "length s - unat mid"
  have m32: "?m < 2 ^ 32" using n2 fits by simp
  have um: "unat (word_of_nat ?m :: 32 word) = ?m" using m32 by (rule unat_of_nat32)
  have mle: "(word_of_nat ?m :: 32 word) \<le> mid"
    using n2 um midn by (simp add: word_le_nat_alt)
  have udiff: "unat (mid - word_of_nat ?m) = unat mid - ?m"
    using unat_sub[OF mle] um by simp
  have in1: "\<And>j. Case1 j \<in> set schedule \<longleftrightarrow> j < ?m"
    unfolding all work_items_def um by auto
  have in2: "\<And>j. Case2 j \<in> set schedule \<longleftrightarrow> j < unat mid - ?m"
    unfolding all work_items_def udiff by auto
  have "run_schedule m_low m_high mid (word_of_nat ?m) schedule s =
     map (\<lambda>j. if Case1 j \<in> set schedule
                 then (m_low * s ! j + m_high * s ! (unat mid + j)) mod s25_order
               else if ?m \<le> j \<and> Case2 (j - ?m) \<in> set schedule
                 then (m_low * s ! j) mod s25_order
               else s ! j) [0..<length s]"
    using mid0 midn n2 fits refl dist all by (intro run_schedule_closed) simp_all
  also have "\<dots> = map (\<lambda>j. if j < length s - unat mid
                      then (m_low * s ! j + m_high * s ! (unat mid + j)) mod s25_order
                    else if j < unat mid then (m_low * s ! j) mod s25_order
                    else s ! j) [0..<length s]"
    unfolding in1 in2 using n2 by (intro nth_equalityI) auto
  finally show ?thesis
    unfolding fold_scalars_closed[OF dev mid0 midn n2 fits] by simp
qed

subsection \<open>What the fold leaves alone\<close>

lemma changed_by_update:
  assumes p: "p < n"
    and f: "\<And>data. length data = n \<Longrightarrow> f data = data[p := g data]"
    and ex: "\<exists>data. length data = n \<and> g data \<noteq> data ! p"
  shows "changed_by f n = {p}"
proof
  show "changed_by f n \<subseteq> {p}"
  proof
    fix j assume "j \<in> changed_by f n"
    then obtain data where len: "length data = n" and ne: "f data ! j \<noteq> data ! j"
      unfolding changed_by_def by blast
    from ne f[OF len] have "data[p := g data] ! j \<noteq> data ! j" by simp
    then have "j = p" by (cases "j = p") simp_all
    then show "j \<in> {p}" by simp
  qed
  from ex obtain data where "length data = n" "g data \<noteq> data ! p" by blast
  then have "f data ! p \<noteq> data ! p" using f p by simp
  then show "{p} \<subseteq> changed_by f n"
    unfolding changed_by_def using p \<open>length data = n\<close> by auto
qed

lemma depends_on_update:
  assumes ch: "changed_by f n = {p}"
    and p: "p < n"
    and f: "\<And>data. length data = n \<Longrightarrow> f data = data[p := g data]"
    and g: "\<And>data k v. length data = n \<Longrightarrow> k \<notin> K \<Longrightarrow> g (data[k := v]) = g data"
  shows "depends_on f n \<subseteq> K"
proof
  fix k assume "k \<in> depends_on f n"
  then obtain data v where len: "length data = n" and ne: "f (data[k := v]) ! p \<noteq> f data ! p"
    unfolding depends_on_def ch by auto
  have "f (data[k := v]) ! p = g (data[k := v])" using f[of "data[k := v]"] len p by simp
  moreover have "f data ! p = g data" using f[of data] len p by simp
  ultimately have "g (data[k := v]) \<noteq> g data" using ne by simp
  then show "k \<in> K" using g[OF len, of k v] by blast
qed

lemma depends_on_witness:
  assumes ch: "changed_by f n = {p}"
    and k: "k < n"
    and len: "length data = n"
    and ne: "f (data[k := v]) ! p \<noteq> f data ! p"
  shows "k \<in> depends_on f n"
  unfolding depends_on_def ch using k len ne by auto

lemma case1_item_closed:
  assumes mid0: "0 < unat mid" and midn: "unat mid < n" and fits: "2 * unat mid < 2 ^ 32"
    and i: "i < n - unat mid" and n2: "n \<le> 2 * unat mid" and len: "length data = n"
  shows "case1_item m_low m_high mid m (word_of_nat i) data =
     data[i := (m_low * data ! i + m_high * data ! (unat mid + i)) mod s25_order]"
proof -
  have ui: "unat (word_of_nat i :: 32 word) = i"
    using i n2 fits by (intro unat_of_nat32) simp
  have umi: "unat (mid + word_of_nat i) = unat mid + i"
    using i n2 fits by (intro unat_add32) simp
  show ?thesis
    using case1_item_nat[of "word_of_nat i" data mid m_low m_high m] i len mid0
    by (simp only: ui umi)
qed

lemma case2_item_closed:
  assumes um: "unat m = n - unat mid" and fits: "2 * unat mid < 2 ^ 32"
    and i: "i < unat mid - (n - unat mid)"
  shows "case2_item m_low m k (word_of_nat i) data =
     data[n - unat mid + i := (m_low * data ! (n - unat mid + i)) mod s25_order]"
proof -
  have ui: "unat (word_of_nat i :: 32 word) = i"
    using i fits by (intro unat_of_nat32) simp
  show ?thesis
    unfolding case2_item_def um ui by (simp only: s25_mul_def)
qed

lemma case1_item_footprint:
  assumes mid0: "0 < unat mid" and midn: "unat mid < n" and fits: "2 * unat mid < 2 ^ 32"
    and i: "i < n - unat mid" and n2: "n \<le> 2 * unat mid"
  shows "changed_by (case1_item m_low m_high mid m (word_of_nat i)) n = {i}"
    and "depends_on (case1_item m_low m_high mid m (word_of_nat i)) n \<subseteq> {i, unat mid + i}"
    and "m_high mod s25_order \<noteq> 0 \<Longrightarrow>
           unat mid + i \<in> depends_on (case1_item m_low m_high mid m (word_of_nat i)) n"
proof -
  let ?f = "case1_item m_low m_high mid m (word_of_nat i)"
  let ?g = "\<lambda>data. (m_low * data ! i + m_high * data ! (unat mid + i)) mod s25_order"
  have f: "\<And>data. length data = n \<Longrightarrow> ?f data = data[i := ?g data]"
    using assms by (intro case1_item_closed) simp_all
  have p: "i < n" using i by simp
  have pos: "0 < s25_order" using s25_order_gt by simp
  have "?g (replicate n s25_order) \<noteq> replicate n s25_order ! i"
  proof -
    have "?g (replicate n s25_order) = ((m_low + m_high) * s25_order) mod s25_order"
      using i midn by (simp add: algebra_simps)
    then have "?g (replicate n s25_order) = 0" by simp
    moreover have "replicate n s25_order ! i = s25_order" using p by simp
    ultimately show ?thesis using pos by simp
  qed
  then have ex: "\<exists>data. length data = n \<and> ?g data \<noteq> data ! i"
    by (intro exI[of _ "replicate n s25_order"]) simp
  show ch: "changed_by ?f n = {i}"
    using p f ex by (rule changed_by_update)
  show "depends_on ?f n \<subseteq> {i, unat mid + i}"
  proof (rule depends_on_update[OF ch p f])
    fix data :: "scalar list" and k v
    assume "length data = n" "k \<notin> {i, unat mid + i}"
    then show "?g (data[k := v]) = ?g data" by simp
  qed
  assume nz: "m_high mod s25_order \<noteq> 0"
  have k: "unat mid + i < n" using i by simp
  have "?f ((replicate n 0)[unat mid + i := 1]) ! i = m_high mod s25_order"
    using f[of "(replicate n 0)[unat mid + i := 1]"] p k mid0 by simp
  moreover have "?f (replicate n 0) ! i = 0"
    using f[of "replicate n 0"] p k by simp
  ultimately have "?f ((replicate n 0)[unat mid + i := 1]) ! i \<noteq> ?f (replicate n 0) ! i"
    using nz by simp
  then show "unat mid + i \<in> depends_on ?f n"
    using k by (intro depends_on_witness[OF ch, where data = "replicate n 0" and v = 1]) simp_all
qed

lemma case2_item_footprint:
  assumes um: "unat m = n - unat mid" and fits: "2 * unat mid < 2 ^ 32"
    and midn: "unat mid < n"
    and i: "i < unat mid - (n - unat mid)"
  shows "changed_by (case2_item m_low m k (word_of_nat i)) n = {n - unat mid + i}"
    and "depends_on (case2_item m_low m k (word_of_nat i)) n \<subseteq> {n - unat mid + i}"
proof -
  let ?f = "case2_item m_low m k (word_of_nat i)"
  let ?p = "n - unat mid + i"
  let ?g = "\<lambda>data. (m_low * data ! ?p) mod s25_order"
  have f: "\<And>data. length data = n \<Longrightarrow> ?f data = data[?p := ?g data]"
    using um fits i by (intro case2_item_closed) simp_all
  have p: "?p < n" using i midn by simp
  have pos: "0 < s25_order" using s25_order_gt by simp
  have "?g (replicate n s25_order) = 0" using p by simp
  moreover have "replicate n s25_order ! ?p = s25_order" using p by simp
  ultimately have "?g (replicate n s25_order) \<noteq> replicate n s25_order ! ?p"
    using pos by simp
  then have ex: "\<exists>data. length data = n \<and> ?g data \<noteq> data ! ?p"
    by (intro exI[of _ "replicate n s25_order"]) simp
  show ch: "changed_by ?f n = {?p}"
    using p f ex by (rule changed_by_update)
  show "depends_on ?f n \<subseteq> {?p}"
  proof (rule depends_on_update[OF ch p f])
    fix data :: "scalar list" and k v
    assume "length data = n" "k \<notin> {?p}"
    then show "?g (data[k := v]) = ?g data" by simp
  qed
qed


lemma fold_scalars_footprints:
  fixes mid :: "32 word"
  assumes mid0: "0 < unat mid" and midn: "unat mid < n" and n2: "n \<le> 2 * unat mid"
    and fits: "2 * unat mid < 2 ^ 32"
    and m: "m = word_of_nat (n - unat mid)"
  shows "case1_written m_low m_high mid m n = {0..<n - unat mid}"
    and "case2_written m_low mid m n = {n - unat mid..<unat mid}"
    and "case1_read_other m_low m_high mid m n \<subseteq> {unat mid..<n}"
    and "m_high mod s25_order \<noteq> 0 \<Longrightarrow> case1_read_other m_low m_high mid m n = {unat mid..<n}"
    and "case2_read_other m_low mid m n = {}"
proof -
  let ?M = "n - unat mid"
  have m32: "?M < 2 ^ 32" using n2 fits by simp
  have um: "unat m = ?M" unfolding m using m32 by (rule unat_of_nat32)
  have mle: "m \<le> mid" using n2 um midn by (simp add: word_le_nat_alt)
  have udiff: "unat (mid - m) = unat mid - ?M"
    using unat_sub[OF mle] um by simp
  have c1: "\<And>i. i \<in> {0..<?M} \<Longrightarrow>
      changed_by (case1_item m_low m_high mid m (word_of_nat i)) n = {i}"
    using mid0 midn fits n2 by (intro case1_item_footprint(1)) simp_all
  have d1: "\<And>i. i \<in> {0..<?M} \<Longrightarrow>
      depends_on (case1_item m_low m_high mid m (word_of_nat i)) n \<subseteq> {i, unat mid + i}"
    using mid0 midn fits n2 by (intro case1_item_footprint(2)) simp_all
  have c2: "\<And>i. i \<in> {0..<unat mid - ?M} \<Longrightarrow>
      changed_by (case2_item m_low m (mid - m) (word_of_nat i)) n = {?M + i}"
    using um fits midn by (intro case2_item_footprint(1)) simp_all
  have d2: "\<And>i. i \<in> {0..<unat mid - ?M} \<Longrightarrow>
      depends_on (case2_item m_low m (mid - m) (word_of_nat i)) n \<subseteq> {?M + i}"
    using um fits midn by (intro case2_item_footprint(2)) simp_all
  have high: "(\<Union>i\<in>{0..<?M}. {unat mid + i}) = {unat mid..<n}" (is "?L = ?R")
  proof
    show "?L \<subseteq> ?R" using midn by auto
    show "?R \<subseteq> ?L"
    proof
      fix k assume "k \<in> ?R"
      then have "k - unat mid \<in> {0..<?M}" and "k \<in> {unat mid + (k - unat mid)}" by auto
      then show "k \<in> ?L" by blast
    qed
  qed
  have low2: "(\<Union>i\<in>{0..<unat mid - ?M}. {?M + i}) = {?M..<unat mid}" (is "?L2 = ?R2")
  proof
    show "?L2 \<subseteq> ?R2" using midn n2 by auto
    show "?R2 \<subseteq> ?L2"
    proof
      fix k assume "k \<in> ?R2"
      then have "k - ?M \<in> {0..<unat mid - ?M}" and "k \<in> {?M + (k - ?M)}" by auto
      then show "k \<in> ?L2" by blast
    qed
  qed
  have "case1_written m_low m_high mid m n = (\<Union>i\<in>{0..<?M}. {i})"
    unfolding case1_written_def um using c1 by (intro SUP_cong) simp_all
  then show "case1_written m_low m_high mid m n = {0..<?M}" by simp
  have "case2_written m_low mid m n = (\<Union>i\<in>{0..<unat mid - ?M}. {?M + i})"
    unfolding case2_written_def udiff using c2 by (intro SUP_cong) simp_all
  then show "case2_written m_low mid m n = {?M..<unat mid}" by (simp only: low2)
  have "case1_read_other m_low m_high mid m n \<subseteq> (\<Union>i\<in>{0..<?M}. {unat mid + i})"
    unfolding case1_read_other_def um
  proof (intro UN_mono subset_refl)
    fix i assume i: "i \<in> {0..<?M}"
    show "depends_on (case1_item m_low m_high mid m (word_of_nat i)) n
          - changed_by (case1_item m_low m_high mid m (word_of_nat i)) n \<subseteq> {unat mid + i}"
      using d1[OF i] c1[OF i] by auto
  qed
  then show sub: "case1_read_other m_low m_high mid m n \<subseteq> {unat mid..<n}"
    by (simp only: high)
  have "case2_read_other m_low mid m n \<subseteq> (\<Union>i\<in>{0..<unat mid - ?M}. {})"
    unfolding case2_read_other_def udiff
  proof (intro UN_mono subset_refl)
    fix i assume i: "i \<in> {0..<unat mid - ?M}"
    show "depends_on (case2_item m_low m (mid - m) (word_of_nat i)) n
          - changed_by (case2_item m_low m (mid - m) (word_of_nat i)) n \<subseteq> {}"
      using d2[OF i] c2[OF i] by auto
  qed
  then show "case2_read_other m_low mid m n = {}" by simp
  assume nz: "m_high mod s25_order \<noteq> 0"
  have "{unat mid..<n} \<subseteq> case1_read_other m_low m_high mid m n"
  proof
    fix k assume k: "k \<in> {unat mid..<n}"
    let ?i = "k - unat mid"
    have i: "?i \<in> {0..<?M}" using k by auto
    have ki: "unat mid + ?i = k" using k by simp
    have "unat mid + ?i \<in> depends_on (case1_item m_low m_high mid m (word_of_nat ?i)) n"
      using mid0 midn fits n2 i nz by (intro case1_item_footprint(3)) simp_all
    moreover have "unat mid + ?i \<notin> changed_by (case1_item m_low m_high mid m (word_of_nat ?i)) n"
      using c1[OF i] mid0 by simp
    ultimately show "k \<in> case1_read_other m_low m_high mid m n"
      unfolding case1_read_other_def um ki using i by blast
  qed
  with sub show "case1_read_other m_low m_high mid m n = {unat mid..<n}" by blast
qed

text \<open>
  Claim C9. Under the precondition of the fold, as the function asserts it, the items of
  case 1 write exactly the indices \<open>[0, n - mid)\<close> and the items of case 2 exactly the
  indices \<open>[n - mid, mid)\<close>, the sets being those the two functors change. The two
  sets are disjoint. What an item reads apart from the element it writes lies in
  \<open>[mid, n)\<close> for case 1 (all of it when \<open>m_high\<close> is not zero in the field) and is
  nothing for case 2, and it is disjoint from both written sets. So every order in
  which the items of the two cases run, each once, ends in the span the fold returns;
  no element from \<open>mid\<close> on is written, and \<open>s[mid..n)\<close> is the same after the fold.
\<close>

theorem fold_scalars_frame:
  assumes "is_device_pointer" and "0 < mid" and "unat mid < length s"
    and "length s \<le> unat (2 * mid)"
  shows "let n = length s;
             m = word_of_nat (n - unat mid);
             written1 = case1_written m_low m_high mid m n;
             written2 = case2_written m_low mid m n;
             read1 = case1_read_other m_low m_high mid m n;
             read2 = case2_read_other m_low mid m n
         in written1 = {0..<n - unat mid}
          \<and> written2 = {n - unat mid..<unat mid}
          \<and> written1 \<inter> written2 = {}
          \<and> read1 \<subseteq> {unat mid..<n}
          \<and> (m_high mod s25_order \<noteq> 0 \<longrightarrow> read1 = {unat mid..<n})
          \<and> read2 = {}
          \<and> (written1 \<union> written2) \<inter> (read1 \<union> read2) = {}
          \<and> (\<forall>schedule. distinct schedule \<and> set schedule = work_items mid m \<longrightarrow>
                 fold_scalars is_device_pointer s m_low m_high mid
                   = Inr (run_schedule m_low m_high mid m schedule s))
          \<and> (\<exists>s'. fold_scalars is_device_pointer s m_low m_high mid = Inr s'
                 \<and> length s' = n
                 \<and> (\<forall>i. unat mid \<le> i \<and> i < n \<longrightarrow> s' ! i = s ! i))"
proof -
  note shape = asserted_shape[OF assms(2,3,4)]
  note pre = assms(1) shape(1) assms(3) shape(2,3)
  let ?n = "length s"
  let ?m = "word_of_nat (?n - unat mid) :: 32 word"
  note fp = fold_scalars_footprints[OF shape(1) assms(3) shape(2,3) refl]
  have w1: "case1_written m_low m_high mid ?m ?n = {0..<?n - unat mid}" by (rule fp(1))
  have w2: "case2_written m_low mid ?m ?n = {?n - unat mid..<unat mid}" by (rule fp(2))
  have r1: "case1_read_other m_low m_high mid ?m ?n \<subseteq> {unat mid..<?n}" by (rule fp(3))
  have r1eq: "m_high mod s25_order \<noteq> 0 \<longrightarrow>
      case1_read_other m_low m_high mid ?m ?n = {unat mid..<?n}"
    using fp(4) by blast
  have r2: "case2_read_other m_low mid ?m ?n = {}" by (rule fp(5))
  have disj: "case1_written m_low m_high mid ?m ?n \<inter> case2_written m_low mid ?m ?n = {}"
    unfolding w1 w2 by auto
  have disjr: "(case1_written m_low m_high mid ?m ?n \<union> case2_written m_low mid ?m ?n)
      \<inter> (case1_read_other m_low m_high mid ?m ?n \<union> case2_read_other m_low mid ?m ?n) = {}"
  proof -
    have "({0..<?n - unat mid} \<union> {?n - unat mid..<unat mid}) \<inter> {unat mid..<?n} = {}"
      using shape(2) by auto
    with r1 show ?thesis unfolding w1 w2 r2 by blast
  qed
  have order: "\<forall>schedule. distinct schedule \<and> set schedule = work_items mid ?m \<longrightarrow>
      fold_scalars is_device_pointer s m_low m_high mid
        = Inr (run_schedule m_low m_high mid ?m schedule s)"
    using fold_scalars_any_order[OF pre] by blast
  have frame: "\<exists>s'. fold_scalars is_device_pointer s m_low m_high mid = Inr s'
              \<and> length s' = ?n
              \<and> (\<forall>i. unat mid \<le> i \<and> i < ?n \<longrightarrow> s' ! i = s ! i)"
    unfolding fold_scalars_closed[OF pre] using shape(2) by auto
  show ?thesis
    unfolding Let_def using w1 w2 disj r1 r1eq r2 disjr order frame by blast
qed

theorem fold_scalars_frame_witness:
  "case1_written 5 7 2 1 3 = {0..<1}
   \<and> case2_written 5 2 1 3 = {1..<2}
   \<and> case1_read_other 5 7 2 1 3 = {2..<3}
   \<and> case2_read_other 5 2 1 3 = {}
   \<and> fold_scalars True [1, 2, 3] 5 7 2 = Inr (run_schedule 5 7 2 1 [Case2 0, Case1 0] [1, 2, 3])
   \<and> fold_scalars True [1, 2, 3] 5 7 2 = Inr [26, 10, 3]"
proof -
  have nz: "(7::nat) mod s25_order \<noteq> 0" using s25_order_gt by simp
  have items: "set [Case2 0, Case1 0] = work_items 2 1"
    by (auto simp: work_items_def)
  have inst: "case1_written 5 7 2 1 3 = {0..<1}
      \<and> case2_written 5 2 1 3 = {1..<2}
      \<and> (7 mod s25_order \<noteq> 0 \<longrightarrow> case1_read_other 5 7 2 1 3 = {2..<3})
      \<and> case2_read_other 5 2 1 3 = {}
      \<and> (\<forall>schedule. distinct schedule \<and> set schedule = work_items 2 1 \<longrightarrow>
             fold_scalars True [1, 2, 3] 5 7 2 = Inr (run_schedule 5 7 2 1 schedule [1, 2, 3]))"
    using fold_scalars_frame[of True 2 "[1, 2, 3]" 5 7]
    by (simp add: Let_def numeral_3_eq_3)
  have run: "fold_scalars True [1, 2, 3] 5 7 2 = Inr (run_schedule 5 7 2 1 [Case2 0, Case1 0] [1, 2, 3])"
    using inst items by simp
  have val: "fold_scalars True [1, 2, 3] 5 7 2 = Inr [26, 10, 3]"
    using s25_order_gt
    by (simp add: fold_scalars_def fold_scalars_case1_def fold_scalars_case2_def for_each_def
        case1_item_def case2_item_def s25_mul_def s25_muladd_def Let_def upt_rec)
  show ?thesis using inst nz run val by blast
qed

section \<open>Properties of the device driver\<close>

subsection \<open>\<^verbatim>\<open>make_workspace\<close> checks nothing\<close>

text \<open>
  A descriptor of length 2 and an \<^verbatim>\<open>a_vector\<close> of length 1: \<^verbatim>\<open>make_workspace\<close>
  returns a workspace whose \<^verbatim>\<open>a_vector\<close> and \<^verbatim>\<open>b_vector\<close> differ in length.
\<close>

theorem make_workspace_length_mismatch_counterexample:
  "gpu_driver_make_workspace
      \<lparr>proof_descriptor.b_vector = [3, 4], proof_descriptor.g_vector = [7, 11 :: int], q_value = 13\<rparr>
      [1]
   = Inr \<lparr>descriptor =
            \<lparr>proof_descriptor.b_vector = [3, 4], proof_descriptor.g_vector = [7, 11], q_value = 13\<rparr>,
          round_index = 0, a_vector = [1], b_vector = [3, 4], g_vector = [7, 11],
          on_device = True\<rparr>
   \<and> gpu_driver_make_workspace
      \<lparr>proof_descriptor.b_vector = [3, 4], proof_descriptor.g_vector = [7, 11 :: int], q_value = 13\<rparr>
      [1]
     \<noteq> Inl LengthMismatch"
  by (simp add: gpu_driver_make_workspace_def)

text \<open>
  Claim C5, as amended. For every descriptor and every \<^verbatim>\<open>a_vector\<close>, of whatever
  length, \<^verbatim>\<open>make_workspace\<close> does not fail: it returns a workspace in round 0 that
  holds \<^verbatim>\<open>a_vector\<close> and the descriptor's \<^verbatim>\<open>b_vector\<close> and \<^verbatim>\<open>g_vector\<close>, each with its
  own length.
\<close>

theorem make_workspace_total:
  "\<exists>work. gpu_driver_make_workspace descr a = Inr work
      \<and> descriptor work = descr \<and> round_index work = 0
      \<and> a_vector work = a
      \<and> b_vector work = proof_descriptor.b_vector descr
      \<and> g_vector work = proof_descriptor.g_vector descr"
  by (simp add: gpu_driver_make_workspace_def)

subsection \<open>\<^verbatim>\<open>compute_expected_commitment\<close> delegates\<close>

text \<open>
  Claim C6. Whatever the host driver's \<^verbatim>\<open>compute_expected_commitment\<close> is, the device
  driver's returns, for every descriptor, \<open>L\<close> and \<open>R\<close> vectors, challenges and
  \<open>a'\<close>, what the host driver's returns on the same arguments.
\<close>

theorem gpu_compute_expected_commitment_is_cpu:
  "gpu_driver_compute_expected_commitment cpu_driver_compute_expected_commitment
      commit descr l_vector r_vector x_vector ap_value
   = cpu_driver_compute_expected_commitment commit descr l_vector r_vector x_vector ap_value"
  by (simp add: gpu_driver_compute_expected_commitment_def)

subsection \<open>\<^verbatim>\<open>commit_to_fold\<close> on a workspace of length 1\<close>

text \<open>
  With one generator left, \<^verbatim>\<open>mid\<close> is 0 and \<^verbatim>\<open>SXT_DEBUG_ASSERT(mid > 0)\<close> fails: the
  failure is the assertion's, not an error of kind DegenerateRound.
\<close>

theorem commit_to_fold_degenerate_counterexample:
  "gpu_driver_commit_to_fold (\<lambda>p. p) (0, 0)
      \<lparr>descriptor =
         \<lparr>proof_descriptor.b_vector = [3, 4], proof_descriptor.g_vector = [7, 11 :: int], q_value = 13\<rparr>,
       round_index = 1, a_vector = [1], b_vector = [3], g_vector = [7], on_device = True\<rparr>
   = (Some AssertionFailed, (0, 0))
   \<and> fst (gpu_driver_commit_to_fold (\<lambda>p. p) (0, 0)
      \<lparr>descriptor =
         \<lparr>proof_descriptor.b_vector = [3, 4], proof_descriptor.g_vector = [7, 11 :: int], q_value = 13\<rparr>,
       round_index = 1, a_vector = [1], b_vector = [3], g_vector = [7], on_device = True\<rparr>)
     \<noteq> Some DegenerateRound"
  by (simp add: gpu_driver_commit_to_fold_def)

text \<open>
  Claim C8, as amended. For every workspace whose \<^verbatim>\<open>g_vector\<close> has length 1,
  \<^verbatim>\<open>commit_to_fold\<close> fails its assertion \<^verbatim>\<open>mid > 0\<close> and leaves both slots as they
  were.
\<close>

theorem commit_to_fold_degenerate:
  "length (g_vector work) = 1 \<Longrightarrow>
     gpu_driver_commit_to_fold compress slots work = (Some AssertionFailed, slots)"
  by (simp add: gpu_driver_commit_to_fold_def)

theorem commit_to_fold_degenerate_witness:
  "gpu_driver_commit_to_fold (\<lambda>p. p) (21, 22)
      \<lparr>descriptor =
         \<lparr>proof_descriptor.b_vector = [3, 4], proof_descriptor.g_vector = [7, 11 :: int], q_value = 13\<rparr>,
       round_index = 1, a_vector = [1], b_vector = [3], g_vector = [7], on_device = True\<rparr>
   = (Some AssertionFailed, (21, 22))"
  using commit_to_fold_degenerate[of
      "\<lparr>descriptor =
         \<lparr>proof_descriptor.b_vector = [3, 4], proof_descriptor.g_vector = [7, 11 :: int], q_value = 13\<rparr>,
       round_index = 1, a_vector = [1], b_vector = [3], g_vector = [7], on_device = True\<rparr>"
      "\<lambda>p. p" "(21, 22)"]
  by simp

subsection \<open>\<^verbatim>\<open>commit_to_fold\<close> in a round with \<open>mid \<ge> 1\<close>\<close>

lemma sum_list_map2_nth:
  fixes f :: "'a \<Rightarrow> 'b \<Rightarrow> 'c::comm_monoid_add"
  assumes "length xs = k" "length ys = k"
  shows "sum_list (map2 f xs ys) = (\<Sum>i<k. f (xs ! i) (ys ! i))"
proof -
  have "sum_list (map2 f xs ys) = (\<Sum>i = 0..<k. map2 f xs ys ! i)"
    using assms by (simp add: sum_list_sum_nth)
  also have "\<dots> = (\<Sum>i = 0..<k. f (xs ! i) (ys ! i))"
    using assms by (intro sum.cong) simp_all
  finally show ?thesis by (simp add: atLeast0LessThan)
qed

lemma commit_to_fold_partial_closed:
  assumes "length u_vector \<le> length g"
  shows "commit_to_fold_partial compress g q u_vector v_vector =
     Inr (compress (multiexp (take (length u_vector) g) u_vector
                    + scalar_multiply (inner_product u_vector v_vector) q))"
  using assms by (simp add: commit_to_fold_partial_def subspan_def and_then_def Let_def)

lemma multiexp_low_high:
  fixes g :: "'g::comm_monoid_add list"
  assumes "length a = 2 * mid" "length g = 2 * mid"
  shows "multiexp (take mid (drop mid g)) (take mid a)
           = (\<Sum>i<mid. scalar_multiply (a ! i) (g ! (mid + i)))"
    and "multiexp (take (length (drop mid a)) (take mid g)) (drop mid a)
           = (\<Sum>i<mid. scalar_multiply (a ! (mid + i)) (g ! i))"
proof -
  show "multiexp (take mid (drop mid g)) (take mid a)
           = (\<Sum>i<mid. scalar_multiply (a ! i) (g ! (mid + i)))"
    unfolding multiexp_def
    using assms by (subst sum_list_map2_nth[where k = mid]) simp_all
  have "length (drop mid a) = mid" using assms by simp
  then show "multiexp (take (length (drop mid a)) (take mid g)) (drop mid a)
           = (\<Sum>i<mid. scalar_multiply (a ! (mid + i)) (g ! i))"
    unfolding multiexp_def
    using assms by (subst sum_list_map2_nth[where k = mid]) simp_all
qed

lemma inner_product_low_high:
  assumes "length a = 2 * mid" "length b = 2 * mid"
  shows "inner_product (take mid a) (drop mid b) = (\<Sum>i<mid. a ! i * b ! (mid + i)) mod s25_order"
    and "inner_product (drop mid a) (take mid b) = (\<Sum>i<mid. a ! (mid + i) * b ! i) mod s25_order"
  unfolding inner_product_def
  using assms by (subst sum_list_map2_nth[where k = mid]; simp)+

lemma commit_to_fold_closed:
  fixes work :: "'g::comm_monoid_add gpu_workspace"
  assumes a: "length (a_vector work) = 2 * mid"
    and b: "length (b_vector work) = 2 * mid"
    and g: "length (g_vector work) = 2 * mid"
    and mid: "1 \<le> mid"
  shows "gpu_driver_commit_to_fold compress slots work =
     (None,
      compress (multiexp (take mid (drop mid (g_vector work))) (take mid (a_vector work))
                + scalar_multiply
                    (inner_product (take mid (a_vector work)) (drop mid (b_vector work)))
                    (q_value (descriptor work))),
      compress (multiexp (take mid (g_vector work)) (drop mid (a_vector work))
                + scalar_multiply
                    (inner_product (drop mid (a_vector work)) (take mid (b_vector work)))
                    (q_value (descriptor work))))"
proof -
  have m: "length (g_vector work) div 2 = mid" using g by simp
  have spans:
    "subspan (a_vector work) 0 mid = Inr (take mid (a_vector work))"
    "subspan_from (a_vector work) mid = Inr (drop mid (a_vector work))"
    "subspan (b_vector work) 0 mid = Inr (take mid (b_vector work))"
    "subspan_from (b_vector work) mid = Inr (drop mid (b_vector work))"
    "subspan (g_vector work) 0 mid = Inr (take mid (g_vector work))"
    "subspan_from (g_vector work) mid = Inr (drop mid (g_vector work))"
    using a b g by (simp_all add: subspan_def subspan_from_def)
  have l: "commit_to_fold_partial compress (drop mid (g_vector work)) (q_value (descriptor work))
             (take mid (a_vector work)) (drop mid (b_vector work)) =
           Inr (compress (multiexp (take mid (drop mid (g_vector work))) (take mid (a_vector work))
                + scalar_multiply
                    (inner_product (take mid (a_vector work)) (drop mid (b_vector work)))
                    (q_value (descriptor work))))"
    using a g by (subst commit_to_fold_partial_closed) simp_all
  have r: "commit_to_fold_partial compress (take mid (g_vector work)) (q_value (descriptor work))
             (drop mid (a_vector work)) (take mid (b_vector work)) =
           Inr (compress (multiexp (take mid (g_vector work)) (drop mid (a_vector work))
                + scalar_multiply
                    (inner_product (drop mid (a_vector work)) (take mid (b_vector work)))
                    (q_value (descriptor work))))"
    using a g by (subst commit_to_fold_partial_closed) simp_all
  show ?thesis
    unfolding gpu_driver_commit_to_fold_def Let_def m spans
    using mid by (simp add: and_then_def l r)
qed

text \<open>
  Claim C1. In a round whose three vectors have length \<open>2 * mid\<close> with \<open>mid \<ge> 1\<close>,
  \<^verbatim>\<open>commit_to_fold\<close> does not fail and writes into the \<open>L\<close> slot the compressed
  \<open><a_low, g_high> + <a_low, b_high> * q\<close> and into the \<open>R\<close> slot the compressed
  \<open><a_high, g_low> + <a_high, b_low> * q\<close>, low being the indices \<open>[0, mid)\<close> and high
  the indices \<open>[mid, 2 * mid)\<close>; each is one multi-exponentiation over the half of
  \<^verbatim>\<open>g_vector\<close> plus the inner product of the scalars, reduced in the field, times \<open>q\<close>.
\<close>

theorem commit_to_fold_commitments:
  fixes work :: "'g::comm_monoid_add gpu_workspace"
  assumes "length (a_vector work) = 2 * mid"
    and "length (b_vector work) = 2 * mid"
    and "length (g_vector work) = 2 * mid"
    and "1 \<le> mid"
  shows "gpu_driver_commit_to_fold compress slots work =
     (None,
      compress ((\<Sum>i<mid. scalar_multiply (a_vector work ! i) (g_vector work ! (mid + i)))
                + scalar_multiply
                    ((\<Sum>i<mid. a_vector work ! i * b_vector work ! (mid + i)) mod s25_order)
                    (q_value (descriptor work))),
      compress ((\<Sum>i<mid. scalar_multiply (a_vector work ! (mid + i)) (g_vector work ! i))
                + scalar_multiply
                    ((\<Sum>i<mid. a_vector work ! (mid + i) * b_vector work ! i) mod s25_order)
                    (q_value (descriptor work))))"
proof -
  have "length (drop mid (a_vector work)) = mid" using assms by simp
  then have r: "multiexp (take mid (g_vector work)) (drop mid (a_vector work))
           = (\<Sum>i<mid. scalar_multiply (a_vector work ! (mid + i)) (g_vector work ! i))"
    using multiexp_low_high(2)[OF assms(1) assms(3)] by simp
  show ?thesis
    unfolding commit_to_fold_closed[OF assms]
      multiexp_low_high(1)[OF assms(1) assms(3)] r
      inner_product_low_high[OF assms(1) assms(2)]
    by (rule refl)
qed

lemma scalar_multiply_int: "scalar_multiply k (p :: int) = int k * p"
  unfolding scalar_multiply_def by (induction k) (simp_all add: algebra_simps)

theorem commit_to_fold_commitments_witness:
  "gpu_driver_commit_to_fold (\<lambda>p. p) (0, 0)
      \<lparr>descriptor =
         \<lparr>proof_descriptor.b_vector = [3, 4], proof_descriptor.g_vector = [7, 11 :: int], q_value = 13\<rparr>,
       round_index = 0, a_vector = [1, 2], b_vector = [3, 4], g_vector = [7, 11], on_device = True\<rparr>
   = (None, (11 + 4 * 13, 2 * 7 + 6 * 13))"
  using commit_to_fold_commitments[of
      "\<lparr>descriptor =
         \<lparr>proof_descriptor.b_vector = [3, 4], proof_descriptor.g_vector = [7, 11 :: int], q_value = 13\<rparr>,
       round_index = 0, a_vector = [1, 2], b_vector = [3, 4], g_vector = [7, 11], on_device = True\<rparr>"
      1 "\<lambda>p. p" "(0, 0)"]
    s25_order_gt
  by (simp add: scalar_multiply_int)

subsection \<open>The inverse\<close>

text \<open>\<^verbatim>\<open>s25_inv\<close> is the power \<open>a ^ (order - 2)\<close> in the field.\<close>

lemma s25_order_gt1: "1 < s25_order"
  by (simp add: s25_order_def)

lemma s25_inv_power: "s25_inv a = a ^ (s25_order - 2) mod s25_order"
proof -
  have assoc: "\<And>x z. s25_mul x (s25_mul x z) = s25_mul (s25_mul x x) z"
    by (simp add: s25_mul_def mod_mult_right_eq mod_mult_left_eq mult.assoc)
  have pw: "(s25_mul a ^^ k) 1 = a ^ k mod s25_order" for k
    using s25_order_gt1
    by (induction k) (simp_all add: s25_mul_def mod_mult_right_eq)
  show ?thesis
    unfolding s25_inv_def efficient_funpow_correct[of s25_mul, OF assoc] pw by (rule refl)
qed

subsection \<open>One round of \<^verbatim>\<open>fold\<close>\<close>

lemma fold_scalars_half:
  assumes "is_device_pointer" "length s = 2 * mid" "1 \<le> mid" "2 * mid < 2 ^ 32"
  shows "fold_scalars is_device_pointer s m_low m_high (word_of_nat mid) =
     Inr (map (\<lambda>j. if j < mid then (m_low * s ! j + m_high * s ! (mid + j)) mod s25_order
                    else s ! j) [0..<2 * mid])"
proof -
  have um: "unat (word_of_nat mid :: 32 word) = mid"
    using assms by (intro unat_of_nat32) simp
  show ?thesis
    using fold_scalars_closed[of is_device_pointer "word_of_nat mid" s m_low m_high] assms
    by (simp add: um)
qed

lemma shrink_map_upt: "k \<le> n \<Longrightarrow> shrink (map f [0..<n]) k = map f [0..<k]"
  by (simp add: shrink_def take_map)

lemma fold_generators_half:
  fixes g :: "'g::comm_monoid_add list"
  assumes "is_device_pointer" "length g = 2 * mid" "1 \<le> mid"
  shows "fold_generators is_device_pointer g (decompose_generator_fold m_low m_high) =
     Inr (map (\<lambda>i. if i < mid
                     then scalar_multiply m_low (g ! i) + scalar_multiply m_high (g ! (mid + i))
                     else g ! i) [0..<2 * mid])"
  using assms by (simp add: fold_generators_def decompose_generator_fold_def Let_def)

lemma gpu_driver_fold_closed:
  fixes work :: "'g::comm_monoid_add gpu_workspace"
  assumes dev: "on_device work"
    and a: "length (a_vector work) = 2 * mid"
    and b: "length (b_vector work) = 2 * mid"
    and g: "length (g_vector work) = 2 * mid"
    and mid: "1 \<le> mid"
    and fits: "2 * mid < 2 ^ 32"
  shows "gpu_driver_fold work x =
     Inr (work\<lparr>round_index := round_index work + 1,
               a_vector := map (\<lambda>i. (x * a_vector work ! i
                                      + s25_inv x * a_vector work ! (mid + i)) mod s25_order)
                             [0..<mid],
               b_vector := (if mid = 1 then b_vector work
                            else map (\<lambda>i. (s25_inv x * b_vector work ! i
                                            + x * b_vector work ! (mid + i)) mod s25_order)
                                   [0..<mid]),
               g_vector := (if mid = 1 then g_vector work
                            else map (\<lambda>i. scalar_multiply (s25_inv x) (g_vector work ! i)
                                           + scalar_multiply x (g_vector work ! (mid + i)))
                                   [0..<mid])\<rparr>)"
proof -
  have m: "length (g_vector work) div 2 = mid" using g by simp
  have fa: "fold_scalars True (a_vector work) x (s25_inv x) (word_of_nat mid) =
     Inr (map (\<lambda>j. if j < mid then (x * a_vector work ! j
                                      + s25_inv x * a_vector work ! (mid + j)) mod s25_order
                    else a_vector work ! j) [0..<2 * mid])"
    using a mid fits by (intro fold_scalars_half) simp_all
  have fb: "fold_scalars True (b_vector work) (s25_inv x) x (word_of_nat mid) =
     Inr (map (\<lambda>j. if j < mid then (s25_inv x * b_vector work ! j
                                      + x * b_vector work ! (mid + j)) mod s25_order
                    else b_vector work ! j) [0..<2 * mid])"
    using b mid fits by (intro fold_scalars_half) simp_all
  have fg: "fold_generators True (g_vector work) (decompose_generator_fold (s25_inv x) x) =
     Inr (map (\<lambda>i. if i < mid
                     then scalar_multiply (s25_inv x) (g_vector work ! i)
                          + scalar_multiply x (g_vector work ! (mid + i))
                     else g_vector work ! i) [0..<2 * mid])"
    using g mid by (intro fold_generators_half) simp_all
  have sh: "\<And>(f :: nat \<Rightarrow> 'b) h. shrink (map (\<lambda>j. if j < mid then f j else h j) [0..<2 * mid]) mid
      = map f [0..<mid]"
    by (simp add: shrink_def take_map)
  show ?thesis
  proof (cases "mid = 1")
    case True
    show ?thesis
      unfolding gpu_driver_fold_def Let_def m
      apply (simp only: if_P[OF True])
      using dev apply (simp add: and_then_def fa sh)
      done
  next
    case False
    show ?thesis
      unfolding gpu_driver_fold_def Let_def m
      apply (simp only: if_not_P[OF False])
      using dev apply (simp add: and_then_def fa fb fg sh)
      done
  qed
qed


text \<open>
  Claim C2. On a device workspace whose three vectors have length \<open>2 * mid\<close> with
  \<open>mid \<ge> 1\<close> (so \<open>mid = |g_vector| / 2\<close>; lengths below \<open>2^32\<close>), \<^verbatim>\<open>fold\<close> with
  challenge \<open>x\<close> does not fail; it adds exactly 1 to \<^verbatim>\<open>round_index\<close>, takes
  \<open>x_inv\<close> from \<^verbatim>\<open>s25o::inv\<close>, and leaves in \<^verbatim>\<open>a_vector\<close> the fold with
  multipliers \<open>(x, x_inv)\<close>. When \<open>mid > 1\<close> it also leaves in \<^verbatim>\<open>b_vector\<close> and
  \<^verbatim>\<open>g_vector\<close> their folds with multipliers \<open>(x_inv, x)\<close>; when \<open>mid = 1\<close> only
  \<^verbatim>\<open>a_vector\<close> is folded and the other two vectors are as they were. The challenge
  need not be different from zero for this.
\<close>

theorem gpu_driver_fold_round:
  fixes work :: "'g::comm_monoid_add gpu_workspace"
  assumes "on_device work"
    and "length (a_vector work) = 2 * mid"
    and "length (b_vector work) = 2 * mid"
    and "length (g_vector work) = 2 * mid"
    and "1 \<le> mid"
    and "2 * mid < 2 ^ 32"
  shows "\<exists>work'. gpu_driver_fold work x = Inr work'
     \<and> round_index work' = round_index work + 1
     \<and> a_vector work' = map (\<lambda>i. (x * a_vector work ! i
                                     + s25_inv x * a_vector work ! (mid + i)) mod s25_order)
                            [0..<mid]
     \<and> (1 < mid \<longrightarrow>
           b_vector work' = map (\<lambda>i. (s25_inv x * b_vector work ! i
                                       + x * b_vector work ! (mid + i)) mod s25_order)
                              [0..<mid]
         \<and> g_vector work' = map (\<lambda>i. scalar_multiply (s25_inv x) (g_vector work ! i)
                                      + scalar_multiply x (g_vector work ! (mid + i)))
                              [0..<mid])
     \<and> (mid = 1 \<longrightarrow> b_vector work' = b_vector work \<and> g_vector work' = g_vector work)"
  unfolding gpu_driver_fold_closed[OF assms] by simp

theorem gpu_driver_fold_round_witness:
  "gpu_driver_fold
      \<lparr>descriptor =
         \<lparr>proof_descriptor.b_vector = [3, 4], proof_descriptor.g_vector = [7, 11 :: int], q_value = 13\<rparr>,
       round_index = 0, a_vector = [1, 2], b_vector = [3, 4], g_vector = [7, 11], on_device = True\<rparr>
      5
   = Inr \<lparr>descriptor =
         \<lparr>proof_descriptor.b_vector = [3, 4], proof_descriptor.g_vector = [7, 11 :: int], q_value = 13\<rparr>,
       round_index = 1, a_vector = [(5 * 1 + s25_inv 5 * 2) mod s25_order],
       b_vector = [3, 4], g_vector = [7, 11], on_device = True\<rparr>
   \<and> gpu_driver_fold
      \<lparr>descriptor =
         \<lparr>proof_descriptor.b_vector = [5, 6, 7, 8], proof_descriptor.g_vector = [1, 2, 3, 4 :: int],
          q_value = 13\<rparr>,
       round_index = 0, a_vector = [1, 2, 3, 4], b_vector = [5, 6, 7, 8], g_vector = [1, 2, 3, 4],
       on_device = True\<rparr>
      2
   = Inr \<lparr>descriptor =
         \<lparr>proof_descriptor.b_vector = [5, 6, 7, 8], proof_descriptor.g_vector = [1, 2, 3, 4 :: int],
          q_value = 13\<rparr>,
       round_index = 1,
       a_vector = [(2 * 1 + s25_inv 2 * 3) mod s25_order, (2 * 2 + s25_inv 2 * 4) mod s25_order],
       b_vector = [(s25_inv 2 * 5 + 2 * 7) mod s25_order, (s25_inv 2 * 6 + 2 * 8) mod s25_order],
       g_vector = [int (s25_inv 2) * 1 + 2 * 3, int (s25_inv 2) * 2 + 2 * 4],
       on_device = True\<rparr>"
proof -
  let ?w = "\<lparr>descriptor =
         \<lparr>proof_descriptor.b_vector = [3, 4], proof_descriptor.g_vector = [7, 11 :: int], q_value = 13\<rparr>,
       round_index = 0, a_vector = [1, 2], b_vector = [3, 4], g_vector = [7, 11], on_device = True\<rparr>"
  from gpu_driver_fold_round[of ?w 1 5]
  obtain work' where r: "gpu_driver_fold ?w 5 = Inr work'"
    and "round_index work' = 1"
    and "a_vector work' = [(5 * 1 + s25_inv 5 * 2) mod s25_order]"
    and "b_vector work' = [3, 4]" and "g_vector work' = [7, 11]"
    by auto
  moreover have "descriptor work' = descriptor ?w \<and> on_device work'"
    using r by (auto simp: gpu_driver_fold_def Let_def and_then_def split: sum.splits)
  ultimately have "work' = \<lparr>descriptor =
         \<lparr>proof_descriptor.b_vector = [3, 4], proof_descriptor.g_vector = [7, 11 :: int], q_value = 13\<rparr>,
       round_index = 1, a_vector = [(5 * 1 + s25_inv 5 * 2) mod s25_order],
       b_vector = [3, 4], g_vector = [7, 11], on_device = True\<rparr>"
    by simp
  with r have first: "gpu_driver_fold ?w 5 = Inr \<lparr>descriptor =
         \<lparr>proof_descriptor.b_vector = [3, 4], proof_descriptor.g_vector = [7, 11 :: int], q_value = 13\<rparr>,
       round_index = 1, a_vector = [(5 * 1 + s25_inv 5 * 2) mod s25_order],
       b_vector = [3, 4], g_vector = [7, 11], on_device = True\<rparr>"
    by simp
  let ?v = "\<lparr>descriptor =
         \<lparr>proof_descriptor.b_vector = [5, 6, 7, 8], proof_descriptor.g_vector = [1, 2, 3, 4 :: int],
          q_value = 13\<rparr>,
       round_index = 0, a_vector = [1, 2, 3, 4], b_vector = [5, 6, 7, 8], g_vector = [1, 2, 3, 4],
       on_device = True\<rparr>"
  have upt2: "[0..<2] = [0, 1]" by (simp add: upt_rec)
  from gpu_driver_fold_round[of ?v 2 2]
  obtain work2 where r2: "gpu_driver_fold ?v 2 = Inr work2"
    and "round_index work2 = 1"
    and "a_vector work2 = [(2 * 1 + s25_inv 2 * 3) mod s25_order, (2 * 2 + s25_inv 2 * 4) mod s25_order]"
    and "b_vector work2 = [(s25_inv 2 * 5 + 2 * 7) mod s25_order, (s25_inv 2 * 6 + 2 * 8) mod s25_order]"
    and "g_vector work2 = [int (s25_inv 2) * 1 + 2 * 3, int (s25_inv 2) * 2 + 2 * 4]"
    by (auto simp: upt2 scalar_multiply_int)
  moreover have "descriptor work2 = descriptor ?v \<and> on_device work2"
    using r2 by (auto simp: gpu_driver_fold_def Let_def and_then_def split: sum.splits if_splits)
  ultimately have "work2 = \<lparr>descriptor =
         \<lparr>proof_descriptor.b_vector = [5, 6, 7, 8], proof_descriptor.g_vector = [1, 2, 3, 4 :: int],
          q_value = 13\<rparr>,
       round_index = 1,
       a_vector = [(2 * 1 + s25_inv 2 * 3) mod s25_order, (2 * 2 + s25_inv 2 * 4) mod s25_order],
       b_vector = [(s25_inv 2 * 5 + 2 * 7) mod s25_order, (s25_inv 2 * 6 + 2 * 8) mod s25_order],
       g_vector = [int (s25_inv 2) * 1 + 2 * 3, int (s25_inv 2) * 2 + 2 * 4],
       on_device = True\<rparr>"
    by simp
  with r2 first show ?thesis by simp
qed

subsection \<open>Lengths after several rounds\<close>

text \<open>
  The final round, on vectors of length 2: \<^verbatim>\<open>fold\<close> returns after shrinking
  \<^verbatim>\<open>a_vector\<close>, so \<^verbatim>\<open>b_vector\<close> and \<^verbatim>\<open>g_vector\<close> keep their two elements.
\<close>

theorem fold_final_round_counterexample:
  "gpu_driver_fold
      \<lparr>descriptor =
         \<lparr>proof_descriptor.b_vector = [3, 4], proof_descriptor.g_vector = [7, 11 :: int], q_value = 13\<rparr>,
       round_index = 0, a_vector = [1, 2], b_vector = [3, 4], g_vector = [7, 11], on_device = True\<rparr>
      5
   = Inr \<lparr>descriptor =
         \<lparr>proof_descriptor.b_vector = [3, 4], proof_descriptor.g_vector = [7, 11 :: int], q_value = 13\<rparr>,
       round_index = 1, a_vector = [(5 + s25_inv 5 * 2) mod s25_order],
       b_vector = [3, 4], g_vector = [7, 11], on_device = True\<rparr>
   \<and> length [3, 4 :: scalar] \<noteq> 2 div 2 ^ 1
   \<and> length [7, 11 :: int] \<noteq> 2 div 2 ^ 1"
proof -
  have "length [3, 4 :: scalar] \<noteq> 2 div 2 ^ 1" and "length [7, 11 :: int] \<noteq> 2 div 2 ^ 1"
    by simp_all
  moreover have "gpu_driver_fold
      \<lparr>descriptor =
         \<lparr>proof_descriptor.b_vector = [3, 4], proof_descriptor.g_vector = [7, 11 :: int], q_value = 13\<rparr>,
       round_index = 0, a_vector = [1, 2], b_vector = [3, 4], g_vector = [7, 11], on_device = True\<rparr>
      5
   = Inr \<lparr>descriptor =
         \<lparr>proof_descriptor.b_vector = [3, 4], proof_descriptor.g_vector = [7, 11 :: int], q_value = 13\<rparr>,
       round_index = 1, a_vector = [(5 + s25_inv 5 * 2) mod s25_order],
       b_vector = [3, 4], g_vector = [7, 11], on_device = True\<rparr>"
    by (simp add: gpu_driver_fold_def fold_scalars_def fold_scalars_case1_def for_each_def
        case1_item_def s25_mul_def s25_muladd_def and_then_def shrink_def Let_def upt_rec
        add.commute mod_simps)
  ultimately show ?thesis by blast
qed

lemma fold_rounds_lengths_aux:
  fixes work :: "'g::comm_monoid_add gpu_workspace"
  assumes "on_device work"
    and "length (a_vector work) = 2 ^ k"
    and "length (b_vector work) = 2 ^ k"
    and "length (g_vector work) = 2 ^ k"
    and "k < 32"
    and "length xs \<le> k"
  shows "\<exists>work'. fold_rounds work xs = Inr work'
     \<and> round_index work' = round_index work + length xs
     \<and> length (a_vector work') = 2 ^ (k - length xs)
     \<and> length (b_vector work') = (if length xs = k \<and> 0 < k then 2 else 2 ^ (k - length xs))
     \<and> length (g_vector work') = (if length xs = k \<and> 0 < k then 2 else 2 ^ (k - length xs))"
  using assms
proof (induction xs arbitrary: work k)
  case Nil
  then show ?case by (cases k) simp_all
next
  case (Cons x xs)
  from Cons.prems obtain j where k: "k = Suc j" by (cases k) auto
  let ?mid = "(2::nat) ^ j"
  have fits: "2 * ?mid < (2::nat) ^ 32"
  proof -
    have "(2::nat) ^ Suc j < 2 ^ 32" using Cons.prems k by (intro power_strict_increasing) simp_all
    then show ?thesis by simp
  qed
  have step: "gpu_driver_fold work x =
     Inr (work\<lparr>round_index := round_index work + 1,
               a_vector := map (\<lambda>i. (x * a_vector work ! i
                                      + s25_inv x * a_vector work ! (?mid + i)) mod s25_order)
                             [0..<?mid],
               b_vector := (if ?mid = 1 then b_vector work
                            else map (\<lambda>i. (s25_inv x * b_vector work ! i
                                            + x * b_vector work ! (?mid + i)) mod s25_order)
                                   [0..<?mid]),
               g_vector := (if ?mid = 1 then g_vector work
                            else map (\<lambda>i. scalar_multiply (s25_inv x) (g_vector work ! i)
                                           + scalar_multiply x (g_vector work ! (?mid + i)))
                                   [0..<?mid])\<rparr>)"
    (is "_ = Inr ?w1")
    using Cons.prems k fits by (intro gpu_driver_fold_closed) simp_all
  have rounds: "fold_rounds work (x # xs) = fold_rounds ?w1 xs"
    by (simp only: fold_rounds.simps step and_then_def sum.case)
  show ?case
  proof (cases "j = 0")
    case True
    then have "xs = []" using Cons.prems k by simp
    then show ?thesis
      unfolding rounds using True k Cons.prems by simp
  next
    case False
    then have mid1: "?mid \<noteq> 1" by simp
    have "\<exists>work'. fold_rounds ?w1 xs = Inr work'
       \<and> round_index work' = round_index ?w1 + length xs
       \<and> length (a_vector work') = 2 ^ (j - length xs)
       \<and> length (b_vector work') = (if length xs = j \<and> 0 < j then 2 else 2 ^ (j - length xs))
       \<and> length (g_vector work') = (if length xs = j \<and> 0 < j then 2 else 2 ^ (j - length xs))"
      using Cons.prems k mid1 by (intro Cons.IH) simp_all
    then show ?thesis
      unfolding rounds using k False by auto
  qed
qed


text \<open>
  Claim C4, as amended. From a device workspace whose three vectors have length
  \<open>n = 2^k\<close> (below \<open>2^32\<close>), \<open>r \<le> k\<close> folds all succeed and leave
  \<open>|a_vector| = n / 2^r\<close>. As long as that length is at least 2 (or no fold was made),
  \<^verbatim>\<open>b_vector\<close> and \<^verbatim>\<open>g_vector\<close> have the same length \<open>n / 2^r\<close>. The final fold, the
  one with \<open>mid = 1\<close>, shrinks \<^verbatim>\<open>a_vector\<close> only: after it \<open>|a_vector| = 1\<close> and
  \<open>|b_vector| = |g_vector| = 2\<close>.
\<close>

theorem fold_rounds_lengths:
  fixes work :: "'g::comm_monoid_add gpu_workspace"
  assumes "on_device work"
    and "length (a_vector work) = 2 ^ k"
    and "length (b_vector work) = 2 ^ k"
    and "length (g_vector work) = 2 ^ k"
    and "k < 32"
    and "length xs \<le> k"
  shows "\<exists>work'. fold_rounds work xs = Inr work'
     \<and> round_index work' = round_index work + length xs
     \<and> length (a_vector work') = 2 ^ k div 2 ^ length xs
     \<and> (length xs < k \<or> k = 0 \<longrightarrow>
           length (b_vector work') = 2 ^ k div 2 ^ length xs
         \<and> length (g_vector work') = 2 ^ k div 2 ^ length xs)
     \<and> (length xs = k \<and> 0 < k \<longrightarrow>
           length (b_vector work') = 2 \<and> length (g_vector work') = 2)"
proof -
  have pd: "(2::nat) ^ (k - length xs) = 2 ^ k div 2 ^ length xs"
    using assms(6) by (simp add: power_diff)
  from fold_rounds_lengths_aux[OF assms]
  obtain work' where "fold_rounds work xs = Inr work'"
    and "round_index work' = round_index work + length xs"
    and "length (a_vector work') = 2 ^ (k - length xs)"
    and "length (b_vector work') = (if length xs = k \<and> 0 < k then 2 else 2 ^ (k - length xs))"
    and "length (g_vector work') = (if length xs = k \<and> 0 < k then 2 else 2 ^ (k - length xs))"
    by blast
  then show ?thesis
    unfolding pd[symmetric] using assms(6) by auto
qed

theorem fold_rounds_lengths_witness:
  "\<not> isl (fold_rounds
      \<lparr>descriptor =
         \<lparr>proof_descriptor.b_vector = [5, 6, 7, 8], proof_descriptor.g_vector = [1, 2, 3, 4 :: int],
          q_value = 13\<rparr>,
       round_index = 0, a_vector = [1, 2, 3, 4], b_vector = [5, 6, 7, 8], g_vector = [1, 2, 3, 4],
       on_device = True\<rparr> [2, 3])
   \<and> length (a_vector (projr (fold_rounds
      \<lparr>descriptor =
         \<lparr>proof_descriptor.b_vector = [5, 6, 7, 8], proof_descriptor.g_vector = [1, 2, 3, 4 :: int],
          q_value = 13\<rparr>,
       round_index = 0, a_vector = [1, 2, 3, 4], b_vector = [5, 6, 7, 8], g_vector = [1, 2, 3, 4],
       on_device = True\<rparr> [2, 3]))) = 1
   \<and> length (b_vector (projr (fold_rounds
      \<lparr>descriptor =
         \<lparr>proof_descriptor.b_vector = [5, 6, 7, 8], proof_descriptor.g_vector = [1, 2, 3, 4 :: int],
          q_value = 13\<rparr>,
       round_index = 0, a_vector = [1, 2, 3, 4], b_vector = [5, 6, 7, 8], g_vector = [1, 2, 3, 4],
       on_device = True\<rparr> [2, 3]))) = 2
   \<and> length (b_vector (projr (fold_rounds
      \<lparr>descriptor =
         \<lparr>proof_descriptor.b_vector = [5, 6, 7, 8], proof_descriptor.g_vector = [1, 2, 3, 4 :: int],
          q_value = 13\<rparr>,
       round_index = 0, a_vector = [1, 2, 3, 4], b_vector = [5, 6, 7, 8], g_vector = [1, 2, 3, 4],
       on_device = True\<rparr> [2]))) = 2"
proof -
  let ?w = "\<lparr>descriptor =
         \<lparr>proof_descriptor.b_vector = [5, 6, 7, 8], proof_descriptor.g_vector = [1, 2, 3, 4 :: int],
          q_value = 13\<rparr>,
       round_index = 0, a_vector = [1, 2, 3, 4], b_vector = [5, 6, 7, 8], g_vector = [1, 2, 3, 4],
       on_device = True\<rparr>"
  from fold_rounds_lengths[of ?w 2 "[2, 3]"]
  obtain w2 where "fold_rounds ?w [2, 3] = Inr w2" "length (a_vector w2) = 1"
    "length (b_vector w2) = 2"
    by auto
  moreover from fold_rounds_lengths[of ?w 2 "[2]"]
  obtain w1 where "fold_rounds ?w [2] = Inr w1" "length (b_vector w1) = 2"
    by auto
  ultimately show ?thesis by simp
qed

section \<open>Properties of the naive sequence commitments\<close>

lemma from_le_bytes_Cons: "from_le_bytes (b # bs) = unat b + 256 * from_le_bytes bs"
  by (simp add: from_le_bytes_def)

lemma from_le_bytes_map_upt:
  "from_le_bytes (map f [0..<k]) = (\<Sum>j<k. unat (f j) * 256 ^ j)"
proof (induction k arbitrary: f)
  case 0
  show ?case by (simp add: from_le_bytes_def)
next
  case (Suc k)
  have "from_le_bytes (map f [0..<Suc k]) = unat (f 0) + 256 * from_le_bytes (map (\<lambda>i. f (Suc i)) [0..<k])"
    by (simp only: map_upt_Suc from_le_bytes_Cons)
  also have "\<dots> = unat (f 0) + 256 * (\<Sum>j<k. unat (f (Suc j)) * 256 ^ j)"
    by (simp only: Suc.IH)
  also have "\<dots> = (\<Sum>j<Suc k. unat (f j) * 256 ^ j)"
    by (subst sum.lessThan_Suc_shift) (simp add: sum_distrib_left mult.assoc mult.left_commute)
  finally show ?case .
qed

lemma fill_data_padded:
  assumes "unat size_row \<le> 32"
  shows "fill_data bytes_row size_row =
           map bytes_row [0..<unat size_row] @ replicate (32 - unat size_row) 0"
proof (rule nth_equalityI)
  show "length (fill_data bytes_row size_row) =
        length (map bytes_row [0..<unat size_row] @ replicate (32 - unat size_row) 0)"
    using assms by (simp add: fill_data_def)
next
  fix j assume "j < length (fill_data bytes_row size_row)"
  then have "j < 32" by (simp add: fill_data_def)
  then show "fill_data bytes_row size_row ! j =
      (map bytes_row [0..<unat size_row] @ replicate (32 - unat size_row) 0) ! j"
    using assms by (simp add: fill_data_def nth_append)
qed

lemma from_le_bytes_fill_data:
  assumes "unat size_row \<le> 32"
  shows "from_le_bytes (fill_data bytes_row size_row) =
           (\<Sum>j<unat size_row. unat (bytes_row j) * 256 ^ j)"
proof -
  have "from_le_bytes (fill_data bytes_row size_row) =
      (\<Sum>j<32. unat (if j < unat size_row then bytes_row j else 0) * 256 ^ j)"
    unfolding fill_data_def by (rule from_le_bytes_map_upt)
  also have "\<dots> = (\<Sum>j<32. if j < unat size_row then unat (bytes_row j) * 256 ^ j else 0)"
    by (intro sum.cong) simp_all
  also have "\<dots> = (\<Sum>j\<in>{..<32} \<inter> {j. j < unat size_row}. unat (bytes_row j) * 256 ^ j)"
    by (simp add: sum.inter_restrict)
  also have "{..<32} \<inter> {j. j < unat size_row} = {..<unat size_row}"
    using assms by auto
  finally show ?thesis .
qed

lemma commitment_rows:
  fixes compute_base_element :: "nat \<Rightarrow> 'g::comm_monoid_add"
  assumes "1 \<le> k"
  shows "foldl (commitment_row compute_base_element column_k_data) p_uninit [0..<k] =
     (\<Sum>i<k. scalar_multiply
               (from_le_bytes (fill_data
                  (\<lambda>j. seq_data column_k_data (i * unat (element_nbytes column_k_data) + j))
                  (element_nbytes column_k_data)))
               (compute_base_element i))"
  using assms
proof (induction k)
  case 0
  then show ?case by simp
next
  case (Suc k)
  show ?case
  proof (cases "k = 0")
    case True
    then show ?thesis by (simp add: commitment_row_def Let_def)
  next
    case False
    then have "1 \<le> k" by simp
    from Suc.IH[OF this] False show ?thesis
      by (simp add: commitment_row_def Let_def)
  qed
qed

lemma commitments_loop:
  assumes "k \<le> length commitments"
  shows "foldl (\<lambda>commitments colum_k. commitments[colum_k := f colum_k]) commitments [0..<k] =
     map (\<lambda>i. if i < k then f i else commitments ! i) [0..<length commitments]"
  using assms
proof (induction k)
  case 0
  show ?case by (simp add: map_nth)
next
  case (Suc k)
  then have IH: "foldl (\<lambda>commitments colum_k. commitments[colum_k := f colum_k]) commitments [0..<k] =
     map (\<lambda>i. if i < k then f i else commitments ! i) [0..<length commitments]"
    by simp
  show ?case
    unfolding upt_Suc_append[OF le0] foldl_append IH
    using Suc.prems by (intro nth_equalityI) (auto simp: nth_list_update less_Suc_eq)
qed

text \<open>
  Claim C10. For spans \<^verbatim>\<open>commitments\<close> and \<^verbatim>\<open>value_sequences\<close> of equal size and a
  sequence \<open>k\<close> with at least one element and \<^verbatim>\<open>element_nbytes\<close> at most 32,
  \<^verbatim>\<open>compute_commitments_cpu\<close> does not fail and leaves in \<^verbatim>\<open>commitments[k]\<close> the byte
  encoding of the sum over \<open>i < n\<close> of \<open>a_i * g_i\<close>: \<open>a_i\<close> is the number encoded,
  least significant byte first, by the \<^verbatim>\<open>element_nbytes\<close> bytes of element \<open>i\<close> followed
  by zeros up to 32 bytes, and \<open>g_i\<close> is the base element of index \<open>i\<close>. The result
  does not depend on what \<^verbatim>\<open>p_k\<close> held before the loop.
\<close>

theorem compute_commitments_cpu_commitment:
  fixes compute_base_element :: "nat \<Rightarrow> 'g::comm_monoid_add"
  assumes "length commitments = length value_sequences"
    and "k < length value_sequences"
    and "1 \<le> seq_n (value_sequences ! k)"
    and "unat (element_nbytes (value_sequences ! k)) \<le> 32"
  shows "\<exists>res. compute_commitments_cpu compute_base_element to_bytes p_uninit
                  commitments value_sequences = Inr res
     \<and> length res = length commitments
     \<and> res ! k = to_bytes
         (\<Sum>i\<in>{..<seq_n (value_sequences ! k)}.
             scalar_multiply
               (from_le_bytes
                  (map (\<lambda>j. seq_data (value_sequences ! k)
                               (i * unat (element_nbytes (value_sequences ! k)) + j))
                       [0..<unat (element_nbytes (value_sequences ! k))]
                   @ replicate (32 - unat (element_nbytes (value_sequences ! k))) 0))
               (compute_base_element i))"
proof -
  let ?f = "\<lambda>colum_k. to_bytes (foldl (commitment_row compute_base_element (value_sequences ! colum_k))
                 p_uninit [0..<seq_n (value_sequences ! colum_k)])"
  have "compute_commitments_cpu compute_base_element to_bytes p_uninit commitments value_sequences
      = Inr (foldl (\<lambda>commitments colum_k. commitments[colum_k := ?f colum_k]) commitments
               [0..<length commitments])"
    using assms(1) by (simp add: compute_commitments_cpu_def Let_def)
  also have "\<dots> = Inr (map (\<lambda>i. if i < length commitments then ?f i else commitments ! i)
                        [0..<length commitments])"
    by (subst commitments_loop) simp_all
  finally have res: "compute_commitments_cpu compute_base_element to_bytes p_uninit commitments
      value_sequences = Inr (map (\<lambda>i. if i < length commitments then ?f i else commitments ! i)
                        [0..<length commitments])" .
  have "?f k = to_bytes
         (\<Sum>i\<in>{..<seq_n (value_sequences ! k)}.
             scalar_multiply
               (from_le_bytes
                  (map (\<lambda>j. seq_data (value_sequences ! k)
                               (i * unat (element_nbytes (value_sequences ! k)) + j))
                       [0..<unat (element_nbytes (value_sequences ! k))]
                   @ replicate (32 - unat (element_nbytes (value_sequences ! k))) 0))
               (compute_base_element i))"
    by (simp only: commitment_rows[OF assms(3)] fill_data_padded[OF assms(4)])
  then show ?thesis
    unfolding res using assms(1,2) by simp
qed

lemma from_le_bytes_padded:
  "from_le_bytes (map f [0..<k] @ replicate z 0) = (\<Sum>j<k. unat (f j) * 256 ^ j)"
proof -
  have "map f [0..<k] @ replicate z 0 = map (\<lambda>j. if j < k then f j else 0) [0..<k + z]"
    by (intro nth_equalityI) (auto simp: nth_append)
  then have "from_le_bytes (map f [0..<k] @ replicate z 0) =
      (\<Sum>j<k + z. unat (if j < k then f j else 0) * 256 ^ j)"
    by (simp only: from_le_bytes_map_upt)
  also have "\<dots> = (\<Sum>j<k + z. if j < k then unat (f j) * 256 ^ j else 0)"
    by (intro sum.cong) simp_all
  also have "\<dots> = (\<Sum>j\<in>{..<k + z} \<inter> {j. j < k}. unat (f j) * 256 ^ j)"
    by (simp add: sum.inter_restrict)
  also have "{..<k + z} \<inter> {j. j < k} = {..<k}"
    by auto
  finally show ?thesis .
qed

theorem compute_commitments_cpu_commitment_witness:
  "compute_commitments_cpu (\<lambda>i. int i + 1) (\<lambda>p. p) 99 [0]
      [\<lparr>element_nbytes = 1, seq_n = 2, seq_data = (\<lambda>j. if j = 0 then 3 else 5)\<rparr>]
   = Inr [3 * 1 + 5 * 2]"
proof -
  let ?s = "\<lparr>element_nbytes = 1, seq_n = 2, seq_data = (\<lambda>j. if j = 0 then 3 else 5 :: byte)\<rparr>"
  from compute_commitments_cpu_commitment[of "[0 :: int]" "[?s]" 0 "\<lambda>i. int i + 1" "\<lambda>p. p" 99]
  obtain res where r: "compute_commitments_cpu (\<lambda>i. int i + 1) (\<lambda>p. p) 99 [0] [?s] = Inr res"
    and len: "length res = 1"
    and v: "res ! 0 = (\<Sum>i<2. scalar_multiply
               (from_le_bytes (map (\<lambda>j. seq_data ?s (i * 1 + j)) [0..<1] @ replicate 31 0))
               (int i + 1))"
    by auto
  have two: "\<And>G :: nat \<Rightarrow> int. (\<Sum>i<2. G i) = G 0 + G 1"
    by (simp add: numeral_2_eq_2)
  have one: "\<And>G :: nat \<Rightarrow> nat. (\<Sum>j<1. G j) = G 0"
    by simp
  have "res ! 0 = 13"
    unfolding v from_le_bytes_padded two one
    by (simp add: scalar_multiply_int)
  with len have "res = [13]"
    by (cases res) simp_all
  with r show ?thesis by simp
qed

end
